theory Spec2Isabelle
  imports Main "HOL-Library.Sublist" "HOL-Library.List_Lexorder" "HOL-Library.Product_Lexorder"
    "HOL-Library.Multiset"
begin

section \<open>The directory tree generator of \<^verbatim>\<open>tree_gen.py\<close>\<close>

subsection \<open>Strings and paths\<close>

text \<open>
  A Python \<^verbatim>\<open>str\<close> is the list of its code points, each an integer, so strings are
  compared as Python compares them: lexicographically, code point by code point. \<open>lit\<close>
  turns an ASCII literal into such a string. A \<^verbatim>\<open>Path\<close> is the list of its components.
\<close>

type_synonym str = "int list"

definition lit :: "string \<Rightarrow> str" where
  "lit s = map of_char s"

type_synonym path = "str list"

text \<open>\<^verbatim>\<open>path.name\<close>: the last component, empty when there is none.\<close>

definition name :: "path \<Rightarrow> str" where
  "name p = (if p = [] then [] else last p)"

text \<open>\<^verbatim>\<open>sep.join(parts)\<close>.\<close>

fun join :: "str \<Rightarrow> str list \<Rightarrow> str" where
  "join sep [] = []"
| "join sep [s] = s"
| "join sep (s # t # ss) = s @ sep @ join sep (t # ss)"

text \<open>\<^verbatim>\<open>str(p)\<close> of a relative path: the components joined by a slash, a dot when there are
  none.\<close>

definition str_path :: "path \<Rightarrow> str" where
  "str_path p = (if p = [] then lit ''.'' else join (lit ''/'') p)"

text \<open>\<^verbatim>\<open>s.replace('\\', '/')\<close>: the backslash is code point 92, the slash 47.\<close>

definition replace_backslash :: "str \<Rightarrow> str" where
  "replace_backslash s = map (\<lambda>c. if c = 92 then 47 else c) s"

subsection \<open>Errors and the filesystem snapshot\<close>

text \<open>
  The exceptions that occur. A system call of the snapshot fails in one of two ways:
  \<open>Denied\<close> (\<^verbatim>\<open>EACCES\<close>, which Python raises as \<^verbatim>\<open>PermissionError\<close>) or \<open>Broken\<close> (any other
  error number that pathlib re-raises, such as \<^verbatim>\<open>ENAMETOOLONG\<close>: an \<^verbatim>\<open>OSError\<close> that is not a
  \<^verbatim>\<open>PermissionError\<close>).
\<close>

datatype error = ValueError | RuntimeError | PermissionError | NotADirectoryError | OSError

datatype failure = Denied | Broken

fun raised :: "failure \<Rightarrow> error" where
  "raised Denied = PermissionError"
| "raised Broken = OSError"

text \<open>
  A snapshot of the filesystem below one path is a finite tree. \<open>File\<close> is anything whose
  \<^verbatim>\<open>stat\<close> works, or reports the entry as gone, and that is not a directory. \<open>Dir l cs\<close> is a
  directory whose \<^verbatim>\<open>stat\<close> works; \<open>l\<close> is the failure of listing it, \<open>None\<close> when the listing
  succeeds, and \<open>cs\<close> are its entries, name and node, in the order \<^verbatim>\<open>iterdir()\<close> yields
  them. \<open>NoStat f\<close> is an entry whose \<^verbatim>\<open>stat\<close> fails with \<open>f\<close>, as every entry of a directory
  without search permission does. Symbolic links that form cycles below the root, and
  the resource limits of the interpreter, are outside this model.
\<close>

datatype node = File | Dir "failure option" "(str \<times> node) list" | NoStat failure

text \<open>\<^verbatim>\<open>path.is_dir()\<close> of pathlib: the answer of \<^verbatim>\<open>stat\<close>, and the exception when \<^verbatim>\<open>stat\<close> fails
  with an error that pathlib does not ignore. \<open>is_Dir\<close> is the answer where there is one.\<close>

fun is_Dir :: "node \<Rightarrow> bool" where
  "is_Dir File = False"
| "is_Dir (Dir l cs) = True"
| "is_Dir (NoStat f) = False"

fun is_dir :: "node \<Rightarrow> error + bool" where
  "is_dir File = Inr False"
| "is_dir (Dir l cs) = Inr True"
| "is_dir (NoStat f) = Inl (raised f)"

text \<open>\<^verbatim>\<open>path.iterdir()\<close>, consumed in full: on a node that is not a directory it raises
  \<^verbatim>\<open>NotADirectoryError\<close>.\<close>

fun iterdir :: "node \<Rightarrow> error + (str \<times> node) list" where
  "iterdir File = Inl NotADirectoryError"
| "iterdir (Dir l cs) = (case l of None \<Rightarrow> Inr cs | Some f \<Rightarrow> Inl (raised f))"
| "iterdir (NoStat f) = Inl (raised f)"

text \<open>\<^verbatim>\<open>path.relative_to(root)\<close>: raises \<^verbatim>\<open>ValueError\<close> when \<open>path\<close> is not below \<open>root\<close>.\<close>

definition relative_to :: "path \<Rightarrow> path \<Rightarrow> error + path" where
  "relative_to p root = (if prefix root p then Inr (drop (length root) p) else Inl ValueError)"

text \<open>\<^verbatim>\<open>str.lower\<close> is a function of the Python library, not of this program: the renderer
  takes it as the parameter \<open>lw\<close>, and every statement below holds for every such function.
  \<open>ascii_lower\<close>, which folds the letters A to Z alone, is the instance used in examples.\<close>

definition ascii_lower :: "str \<Rightarrow> str" where
  "ascii_lower s = map (\<lambda>c. if 65 \<le> c \<and> c \<le> 90 then c + 32 else c) s"

text \<open>\<^verbatim>\<open>path.suffix\<close> of pathlib: the part of the name from its last dot (code point 46) on,
  when that dot is neither the first nor the last character; empty otherwise.\<close>

fun rfind_dot :: "str \<Rightarrow> nat option" where
  "rfind_dot [] = None"
| "rfind_dot (c # cs) =
     (case rfind_dot cs of
        Some i \<Rightarrow> Some (Suc i)
      | None \<Rightarrow> (if c = 46 then Some 0 else None))"

definition path_suffix :: "str \<Rightarrow> str" where
  "path_suffix nm =
     (case rfind_dot nm of
        None \<Rightarrow> []
      | Some i \<Rightarrow> (if 0 < i \<and> i + 1 < length nm then drop i nm else []))"

subsection \<open>Configuration\<close>

record config =
  exclude_dirs :: "str set"
  exclude_files :: "str set"
  exclude_patterns :: "str list"
  exclude_path_patterns :: "str list"
  include_extensions :: "str list option"
  max_depth :: "int option"

definition default_exclude_dirs :: "str list" where
  "default_exclude_dirs = map lit
    [''node_modules'', ''vendor'',
     ''dist'', ''build'', ''.expo'', ''android/app/build'',
     ''android/.gradle'', ''android/.kotlin'', ''android/app/.cxx'',
     ''ios/build'', ''ios/Pods'',
     ''__pycache__'', ''.pytest_cache'', ''.mypy_cache'',
     ''.next'', ''coverage'', ''temp-apk'',
     ''.git'', ''.vscode'', ''.idea'', ''.DS_Store'',
     ''venv'', ''env'',
     ''.gradle'', ''.cxx'', ''build'',
     ''.expo-shared'', ''web-build'']"

definition default_exclude_files :: "str list" where
  "default_exclude_files = map lit
    [''.DS_Store'', ''Thumbs.db'', ''desktop.ini'',
     ''package-lock.json'', ''yarn.lock'', ''pnpm-lock.yaml'',
     ''.env'', ''.env.local'', ''.env.production'',
     ''google-services.json'', ''GoogleService-Info.plist'',
     ''.gitignore'', ''.eslintcache'',
     ''debug.keystore'',
     ''gradle-wrapper.jar'', ''gradlew'', ''gradlew.bat'']"

definition default_exclude_patterns :: "str list" where
  "default_exclude_patterns = map lit
    [''.pyc'', ''.pyo'', ''.class'', ''.o'',
     ''.log'',
     ''.zip'', ''.tar'', ''.gz'', ''.apk'', ''.ipa'', ''.aab'',
     ''.bin'', ''.lock'', ''.probe'',
     ''.so'', ''.dex'']"

definition default_exclude_path_patterns :: "str list" where
  "default_exclude_path_patterns = map lit
    [''android/app/.cxx'',
     ''android/.gradle'',
     ''android/app/build'',
     ''.expo/web/cache'',
     ''android/gradle/wrapper'']"

text \<open>The overrides passed to \<^verbatim>\<open>TreeGenerator(config=...)\<close>: \<open>None\<close> is a key that is absent.
  The two options whose default is \<^verbatim>\<open>None\<close> need no second level.\<close>

record overrides =
  o_exclude_dirs :: "str list option"
  o_exclude_files :: "str list option"
  o_exclude_patterns :: "str list option"
  o_exclude_path_patterns :: "str list option"
  o_include_extensions :: "str list option"
  o_max_depth :: "int option"

definition no_overrides :: overrides where
  "no_overrides = \<lparr> o_exclude_dirs = None, o_exclude_files = None, o_exclude_patterns = None,
     o_exclude_path_patterns = None, o_include_extensions = None, o_max_depth = None \<rparr>"

text \<open>\<^verbatim>\<open>TreeGenerator.__init__\<close>: the defaults, each replaced by its override when there is
  one.\<close>

definition init :: "overrides \<Rightarrow> config" where
  "init ov =
    \<lparr> exclude_dirs = set (case o_exclude_dirs ov of None \<Rightarrow> default_exclude_dirs | Some v \<Rightarrow> v),
      exclude_files = set (case o_exclude_files ov of None \<Rightarrow> default_exclude_files | Some v \<Rightarrow> v),
      exclude_patterns =
        (case o_exclude_patterns ov of None \<Rightarrow> default_exclude_patterns | Some v \<Rightarrow> v),
      exclude_path_patterns =
        (case o_exclude_path_patterns ov of None \<Rightarrow> default_exclude_path_patterns | Some v \<Rightarrow> v),
      include_extensions = o_include_extensions ov,
      max_depth = o_max_depth ov \<rparr>"

subsection \<open>The exclusion rules\<close>

text \<open>\<^verbatim>\<open>_should_exclude_by_path\<close>: the loop over the patterns returns at the first one that
  occurs in the path string; a \<^verbatim>\<open>ValueError\<close> of \<^verbatim>\<open>relative_to\<close> is swallowed.\<close>

fun any_in :: "str list \<Rightarrow> str \<Rightarrow> bool" where
  "any_in [] s = False"
| "any_in (pattern # ps) s = (if sublist pattern s then True else any_in ps s)"

definition should_exclude_by_path :: "config \<Rightarrow> path \<Rightarrow> path \<Rightarrow> bool" where
  "should_exclude_by_path cfg p root =
     (case relative_to p root of
        Inl e \<Rightarrow> False
      | Inr relative_path \<Rightarrow>
          any_in (exclude_path_patterns cfg) (replace_backslash (str_path relative_path)))"

fun any_endswith :: "str list \<Rightarrow> str \<Rightarrow> bool" where
  "any_endswith [] nm = False"
| "any_endswith (pattern # ps) nm = (if suffix pattern nm then True else any_endswith ps nm)"

text \<open>\<^verbatim>\<open>_should_exclude(path, root)\<close>. The entry is its path and what \<^verbatim>\<open>path.is_dir()\<close>
  answers; \<open>root\<close> is \<open>None\<close> when the argument is left out.\<close>

definition should_exclude :: "config \<Rightarrow> path \<Rightarrow> bool \<Rightarrow> path option \<Rightarrow> bool" where
  "should_exclude cfg p isdir root =
     (if (case root of None \<Rightarrow> False | Some r \<Rightarrow> should_exclude_by_path cfg p r) then True
      else if isdir then name p \<in> exclude_dirs cfg
      else if name p \<in> exclude_files cfg then True
      else if any_endswith (exclude_patterns cfg) (name p) then True
      else (case include_extensions cfg of
              None \<Rightarrow> False
            | Some exts \<Rightarrow> (if exts = [] then False else path_suffix (name p) \<notin> set exts)))"

subsection \<open>The tree renderer\<close>

text \<open>The connectors and continuation segments: a corner (U+2514) or a branch (U+251C)
  followed by two horizontal strokes (U+2500) and a space; a vertical stroke (U+2502) or a
  space followed by three spaces.\<close>

definition corner :: str where
  "corner = [0x2514, 0x2500, 0x2500, 0x20]"

definition branch :: str where
  "branch = [0x251C, 0x2500, 0x2500, 0x20]"

definition vertical :: str where
  "vertical = [0x2502, 0x20, 0x20, 0x20]"

definition blank :: str where
  "blank = [0x20, 0x20, 0x20, 0x20]"

text \<open>The sort key \<^verbatim>\<open>(not p.is_dir(), p.name.lower())\<close> of an entry whose \<^verbatim>\<open>stat\<close> works;
  pairs and strings are compared lexicographically, \<open>False\<close> before \<open>True\<close>, as Python
  compares tuples and strings. \<open>sort_key\<close> is a stable sort, as \<^verbatim>\<open>sorted\<close> is.\<close>

definition sort_k :: "(str \<Rightarrow> str) \<Rightarrow> str \<times> node \<Rightarrow> bool \<times> str" where
  "sort_k lw item = (\<not> is_Dir (snd item), lw (fst item))"

text \<open>\<^verbatim>\<open>sorted\<close> computes the keys of the entries in the order of the listing, so the first
  entry whose \<^verbatim>\<open>is_dir()\<close> raises decides the exception of the whole call.\<close>

fun stat_error :: "(str \<times> node) list \<Rightarrow> error option" where
  "stat_error [] = None"
| "stat_error (item # rest) =
     (case is_dir (snd item) of Inl e \<Rightarrow> Some e | Inr d \<Rightarrow> stat_error rest)"

text \<open>The guard \<^verbatim>\<open>self.max_depth and depth >= self.max_depth\<close>: \<^verbatim>\<open>None\<close> and \<^verbatim>\<open>0\<close> are both
  false in Python.\<close>

definition depth_reached :: "config \<Rightarrow> nat \<Rightarrow> bool" where
  "depth_reached cfg depth =
     (case max_depth cfg of
        None \<Rightarrow> False
      | Some d \<Rightarrow> d \<noteq> 0 \<and> int depth \<ge> d)"

text \<open>One appended line, together with the entry it was appended for: the path of
  \<^verbatim>\<open>item\<close> and its \<^verbatim>\<open>is_dir()\<close>. The lines of the source are the \<open>r_line\<close> fields.\<close>

record row =
  r_path :: path
  r_is_dir :: bool
  r_line :: str

text \<open>A \<^verbatim>\<open>for\<close> loop whose body appends lines and may raise: the lines of all rounds in
  order, or the first error.\<close>

fun for_each :: "('a \<Rightarrow> error + 'b list) \<Rightarrow> 'a list \<Rightarrow> error + 'b list" where
  "for_each body [] = Inr []"
| "for_each body (x # xs) =
     (case body x of
        Inl e \<Rightarrow> Inl e
      | Inr ys \<Rightarrow> (case for_each body xs of Inl e \<Rightarrow> Inl e | Inr zs \<Rightarrow> Inr (ys @ zs)))"

lemma for_each_cong [fundef_cong]:
  "xs = ys \<Longrightarrow> (\<And>x. x \<in> set ys \<Longrightarrow> f x = g x) \<Longrightarrow> for_each f xs = for_each g ys"
  by (induction ys arbitrary: xs) (auto split: sum.splits)

text \<open>\<^verbatim>\<open>_build_tree(path, prefix, lines, depth, root)\<close>; \<open>nd\<close> is what the snapshot holds at
  \<open>p\<close>. The result is the lines appended to \<^verbatim>\<open>lines\<close>, or the exception raised. The
  \<^verbatim>\<open>try\<close> block holds the listing and the sort, whose key calls \<^verbatim>\<open>is_dir()\<close> on every
  entry, and the filter; \<^verbatim>\<open>except PermissionError\<close> returns, any other exception passes.
  Once the sort has gone through, \<^verbatim>\<open>is_dir()\<close> answers \<open>is_Dir\<close> on every entry, in the
  filter and in the loop.\<close>

function build_tree ::
  "(str \<Rightarrow> str) \<Rightarrow> config \<Rightarrow> path \<Rightarrow> node \<Rightarrow> str \<Rightarrow> nat \<Rightarrow> path \<Rightarrow> error + row list" where
  "build_tree lw cfg p nd pre depth root =
     (if depth_reached cfg depth then Inr []
      else
        (case iterdir nd of
           Inl e \<Rightarrow> (if e = PermissionError then Inr [] else Inl e)
         | Inr cs \<Rightarrow>
             (case stat_error cs of
                Some e \<Rightarrow> (if e = PermissionError then Inr [] else Inl e)
              | None \<Rightarrow>
                 (let contents =
                        filter (\<lambda>item. \<not> should_exclude cfg (p @ [fst item]) (is_Dir (snd item))
                                           (Some root))
                          (sort_key (sort_k lw) cs)
                  in for_each
                       (\<lambda>(i, item).
                          let is_last = (int i = int (length contents) - 1);
                              current_prefix = (if is_last then corner else branch);
                              next_prefix = (if is_last then blank else vertical);
                              display_name =
                                (if is_Dir (snd item) then fst item @ lit ''/'' else fst item);
                              line = \<lparr> r_path = p @ [fst item], r_is_dir = is_Dir (snd item),
                                       r_line = pre @ current_prefix @ display_name \<rparr>
                          in if is_Dir (snd item)
                             then (case build_tree lw cfg (p @ [fst item]) (snd item)
                                          (pre @ next_prefix) (depth + 1) root of
                                     Inl e \<Rightarrow> Inl e
                                   | Inr below \<Rightarrow> Inr (line # below))
                             else Inr [line])
                       (enumerate 0 contents)))))"
  by pat_completeness auto

lemma size_entry:
  "(n, c) \<in> set cs \<Longrightarrow> size c < Suc (size_list (size_prod (\<lambda>x. 0) size) cs)"
  by (induction cs) auto

lemma enumerate_member: "(i, x) \<in> set (enumerate n xs) \<Longrightarrow> x \<in> set xs"
  by (auto simp: in_set_enumerate_eq)

lemma iterdir_Inr: "iterdir nd = Inr cs \<Longrightarrow> nd = Dir None cs"
  by (cases nd) (auto split: option.splits)

termination build_tree
  apply (relation "measure (\<lambda>(lw, cfg, p, nd, pre, depth, root). size nd)")
   apply simp
  apply (clarsimp dest!: iterdir_Inr enumerate_member)
  apply (erule size_entry)
  done

text \<open>What \<^verbatim>\<open>generate_tree\<close> finds at the root path before the traversal: \<^verbatim>\<open>resolve()\<close>
  meets a symbolic link loop and raises \<^verbatim>\<open>RuntimeError\<close>, as it does in Python before 3.13
  (\<open>Loops\<close>); or the \<^verbatim>\<open>stat\<close> of \<^verbatim>\<open>exists()\<close> fails with an error that pathlib re-raises
  (\<open>Raises\<close>), as it does below a directory without search permission, whether or not the
  path exists; or \<^verbatim>\<open>stat\<close> works or reports that nothing is there (\<open>Reached\<close>).\<close>

datatype probe = Reached | Raises failure | Loops

text \<open>\<^verbatim>\<open>generate_tree(directory)\<close> with no output file. \<open>root_path\<close> is the resolved path,
  \<open>pr\<close> what the existence test meets, and \<open>snap\<close> what the filesystem holds at the path,
  \<open>None\<close> when the path does not exist. \<open>tree_rows\<close> are the entries \<^verbatim>\<open>_build_tree\<close>
  appended lines for, \<open>tree_lines\<close> is the list \<^verbatim>\<open>tree_lines\<close> of the source after the
  traversal, and the result joins it with newlines (code point 10).\<close>

definition tree_rows ::
  "(str \<Rightarrow> str) \<Rightarrow> config \<Rightarrow> path \<Rightarrow> probe \<Rightarrow> node option \<Rightarrow> error + row list" where
  "tree_rows lw cfg root_path pr snap =
     (case pr of
        Loops \<Rightarrow> Inl RuntimeError
      | Raises f \<Rightarrow> Inl (raised f)
      | Reached \<Rightarrow>
          (case snap of
             None \<Rightarrow> Inl ValueError
           | Some nd \<Rightarrow> build_tree lw cfg root_path nd [] 0 root_path))"

definition tree_lines ::
  "(str \<Rightarrow> str) \<Rightarrow> config \<Rightarrow> path \<Rightarrow> probe \<Rightarrow> node option \<Rightarrow> error + str list" where
  "tree_lines lw cfg root_path pr snap =
     (case tree_rows lw cfg root_path pr snap of
        Inl e \<Rightarrow> Inl e
      | Inr rows \<Rightarrow> Inr ((name root_path @ lit ''/'') # map r_line rows))"

definition generate_tree ::
  "(str \<Rightarrow> str) \<Rightarrow> config \<Rightarrow> path \<Rightarrow> probe \<Rightarrow> node option \<Rightarrow> error + str" where
  "generate_tree lw cfg root_path pr snap =
     (case tree_lines lw cfg root_path pr snap of
        Inl e \<Rightarrow> Inl e
      | Inr ls \<Rightarrow> Inr (join [10] ls))"

subsection \<open>The configuration built by \<^verbatim>\<open>main\<close>\<close>

text \<open>The parsed command line, without the directory and the output file.\<close>

record args =
  a_max_depth :: "int option"
  a_ext :: "str list option"
  a_exclude_dirs :: "str list option"
  a_exclude_files :: "str list option"
  a_include_images :: bool
  a_minimal :: bool

text \<open>Python's truth value of an optional integer and of an optional list.\<close>

fun truthy_int :: "int option \<Rightarrow> bool" where
  "truthy_int None = False"
| "truthy_int (Some n) = (n \<noteq> 0)"

fun truthy_list :: "'a list option \<Rightarrow> bool" where
  "truthy_list None = False"
| "truthy_list (Some xs) = (xs \<noteq> [])"

definition image_extensions :: "str list" where
  "image_extensions = map lit [''.png'', ''.jpg'', ''.jpeg'', ''.gif'', ''.webp'', ''.svg'', ''.ico'']"

definition main_config :: "args \<Rightarrow> overrides" where
  "main_config a =
     (let config = no_overrides;
          config = (if truthy_int (a_max_depth a)
                    then config\<lparr>o_max_depth := a_max_depth a\<rparr> else config);
          config = (if truthy_list (a_ext a)
                    then config\<lparr>o_include_extensions := a_ext a\<rparr> else config);
          config = (if a_minimal a
                    then config\<lparr>o_include_extensions :=
                           Some (map lit [''.ts'', ''.tsx'', ''.js'', ''.jsx'', ''.json'', ''.md''])\<rparr>
                    else config);
          config = (case a_exclude_dirs a of
                      Some ds \<Rightarrow> (if ds \<noteq> []
                                  then config\<lparr>o_exclude_dirs := Some (default_exclude_dirs @ ds)\<rparr>
                                  else config)
                    | None \<Rightarrow> config);
          config = (case a_exclude_files a of
                      Some fs \<Rightarrow> (if fs \<noteq> []
                                  then config\<lparr>o_exclude_files := Some (default_exclude_files @ fs)\<rparr>
                                  else config)
                    | None \<Rightarrow> config);
          config = (if \<not> a_include_images a
                    then config\<lparr>o_exclude_patterns :=
                           Some (default_exclude_patterns @ image_extensions)\<rparr>
                    else config)
      in config)"

text \<open>The generator \<^verbatim>\<open>main\<close> constructs: \<^verbatim>\<open>TreeGenerator(config=config)\<close>.\<close>

definition main_generator :: "args \<Rightarrow> config" where
  "main_generator a = init (main_config a)"


subsection \<open>Notions derived from the renderer\<close>

text \<open>The list \<^verbatim>\<open>contents\<close> of one call of \<^verbatim>\<open>_build_tree\<close>, the row appended for the entry
  at index \<open>i\<close> of \<open>len\<close>, and the prefix passed down to it.\<close>

definition contents ::
  "(str \<Rightarrow> str) \<Rightarrow> config \<Rightarrow> path \<Rightarrow> path \<Rightarrow> (str \<times> node) list \<Rightarrow> (str \<times> node) list" where
  "contents lw cfg p root cs =
     filter (\<lambda>item. \<not> should_exclude cfg (p @ [fst item]) (is_Dir (snd item)) (Some root))
       (sort_key (sort_k lw) cs)"

definition entry_row :: "path \<Rightarrow> str \<Rightarrow> nat \<Rightarrow> nat \<Rightarrow> str \<times> node \<Rightarrow> row" where
  "entry_row p pre len i item =
     \<lparr> r_path = p @ [fst item], r_is_dir = is_Dir (snd item),
       r_line = pre @ (if int i = int len - 1 then corner else branch)
                  @ (if is_Dir (snd item) then fst item @ lit ''/'' else fst item) \<rparr>"

definition next_pre :: "str \<Rightarrow> nat \<Rightarrow> nat \<Rightarrow> str" where
  "next_pre pre len i = pre @ (if int i = int len - 1 then blank else vertical)"

text \<open>The rows of a call, none when it raises; and, for the entry at index \<open>fst ix\<close> of the
  contents, the recursive call made for it and the rows of its round of the loop.\<close>

definition rows_below ::
  "(str \<Rightarrow> str) \<Rightarrow> config \<Rightarrow> path \<Rightarrow> node \<Rightarrow> str \<Rightarrow> nat \<Rightarrow> path \<Rightarrow> row list" where
  "rows_below lw cfg p nd pre depth root =
     (case build_tree lw cfg p nd pre depth root of Inl e \<Rightarrow> [] | Inr rows \<Rightarrow> rows)"

definition child_call ::
  "(str \<Rightarrow> str) \<Rightarrow> config \<Rightarrow> path \<Rightarrow> str \<Rightarrow> nat \<Rightarrow> path \<Rightarrow> nat \<Rightarrow> nat \<times> str \<times> node \<Rightarrow>
     error + row list" where
  "child_call lw cfg p pre depth root len ix =
     build_tree lw cfg (p @ [fst (snd ix)]) (snd (snd ix)) (next_pre pre len (fst ix))
       (Suc depth) root"

definition block ::
  "(str \<Rightarrow> str) \<Rightarrow> config \<Rightarrow> path \<Rightarrow> str \<Rightarrow> nat \<Rightarrow> path \<Rightarrow> nat \<Rightarrow> nat \<times> str \<times> node \<Rightarrow> row list" where
  "block lw cfg p pre depth root len ix =
     entry_row p pre len (fst ix) (snd ix) #
     rows_below lw cfg (p @ [fst (snd ix)]) (snd (snd ix)) (next_pre pre len (fst ix))
       (Suc depth) root"

subsection \<open>The exclusion rules as the specification words them\<close>

text \<open>Rule 1: the entry lies below the root and some configured substring occurs in its
  root-relative path, written with forward slashes. Rules 2 to 5: the bare name is in the
  set of directory names; it is in the set of file names; it ends with some configured
  suffix; an allow-list is configured, is not empty, and does not hold the extension.\<close>

definition rule_path :: "config \<Rightarrow> path \<Rightarrow> path \<Rightarrow> bool" where
  "rule_path cfg p root =
     (prefix root p \<and>
      (\<exists>pat \<in> set (exclude_path_patterns cfg).
          sublist pat (replace_backslash (str_path (drop (length root) p)))))"

definition rule_dir_name :: "config \<Rightarrow> path \<Rightarrow> bool" where
  "rule_dir_name cfg p = (name p \<in> exclude_dirs cfg)"

definition rule_file_name :: "config \<Rightarrow> path \<Rightarrow> bool" where
  "rule_file_name cfg p = (name p \<in> exclude_files cfg)"

definition rule_suffix :: "config \<Rightarrow> path \<Rightarrow> bool" where
  "rule_suffix cfg p = (\<exists>pat \<in> set (exclude_patterns cfg). suffix pat (name p))"

definition rule_allow_list :: "config \<Rightarrow> path \<Rightarrow> bool" where
  "rule_allow_list cfg p =
     (case include_extensions cfg of
        None \<Rightarrow> False
      | Some exts \<Rightarrow> exts \<noteq> [] \<and> path_suffix (name p) \<notin> set exts)"

subsection \<open>Notions used to state the laws of the renderer\<close>



text \<open>The entries that are kept: not excluded themselves, and below directories that are
  not excluded, that can be listed, and all of whose entries answer \<^verbatim>\<open>stat\<close>. Each comes
  with its path and whether it is a directory.\<close>

function kept_entries :: "config \<Rightarrow> path \<Rightarrow> path \<Rightarrow> node \<Rightarrow> (path \<times> bool) list" where
  "kept_entries cfg root p File = []"
| "kept_entries cfg root p (NoStat f) = []"
| "kept_entries cfg root p (Dir l cs) =
     (if l = None \<and> stat_error cs = None
      then concat (map (\<lambda>item.
             if should_exclude cfg (p @ [fst item]) (is_Dir (snd item)) (Some root) then []
             else (p @ [fst item], is_Dir (snd item)) #
                  kept_entries cfg root (p @ [fst item]) (snd item)) cs)
      else [])"
  by pat_completeness auto
termination
  apply (relation "measure (\<lambda>(cfg, root, p, nd). size nd)")
   apply simp
  apply clarsimp
  apply (erule size_entry)
  done

text \<open>The entry a row was appended for.\<close>

definition entry_of :: "row \<Rightarrow> path \<times> bool" where
  "entry_of r = (r_path r, r_is_dir r)"

text \<open>The snapshot in which every directory named \<open>nm\<close> below the root is replaced by an
  empty directory.\<close>

function prune :: "str \<Rightarrow> node \<Rightarrow> node" where
  "prune nm File = File"
| "prune nm (NoStat f) = NoStat f"
| "prune nm (Dir l cs) =
     Dir l (map (\<lambda>item. (fst item,
                    if fst item = nm \<and> is_Dir (snd item) then Dir None []
                    else prune nm (snd item))) cs)"
  by pat_completeness auto
termination
  apply (relation "measure (\<lambda>(nm, nd). size nd)")
   apply simp
  apply clarsimp
  apply (erule size_entry)
  done

text \<open>The snapshot in which every directory whose listing raises a permission error, and
  whose path \<open>sel\<close> selects, is replaced by an empty directory that can be listed.\<close>

function as_empty :: "(path \<Rightarrow> bool) \<Rightarrow> path \<Rightarrow> node \<Rightarrow> node" where
  "as_empty sel p File = File"
| "as_empty sel p (NoStat f) = NoStat f"
| "as_empty sel p (Dir l cs) =
     (if l = Some Denied \<and> sel p then Dir None []
      else Dir l (map (\<lambda>item. (fst item, as_empty sel (p @ [fst item]) (snd item))) cs))"
  by pat_completeness auto
termination
  apply (relation "measure (\<lambda>(sel, p, nd). size nd)")
   apply simp
  apply clarsimp
  apply (erule size_entry)
  done

text \<open>A snapshot in which every directory holds each name once, as a filesystem does.\<close>

function names_unique :: "node \<Rightarrow> bool" where
  "names_unique File = True"
| "names_unique (NoStat f) = True"
| "names_unique (Dir l cs) =
     (distinct (map fst cs) \<and> list_all (\<lambda>item. names_unique (snd item)) cs)"
  by pat_completeness auto
termination
  apply (relation "measure size")
   apply simp
  apply clarsimp
  apply (erule size_entry)
  done

text \<open>The sort key of the entry of a row, its name in lower case, the rows of a list whose
  parent directory is \<open>q\<close>, and the rows of a list one level below \<open>p\<close>.\<close>

definition row_key :: "(str \<Rightarrow> str) \<Rightarrow> row \<Rightarrow> bool \<times> str" where
  "row_key lw r = (\<not> r_is_dir r, lw (name (r_path r)))"

definition sibling_group :: "path \<Rightarrow> row list \<Rightarrow> row list" where
  "sibling_group q rows = filter (\<lambda>r. butlast (r_path r) = q) rows"

definition lower_name :: "(str \<Rightarrow> str) \<Rightarrow> row \<Rightarrow> str" where
  "lower_name lw r = lw (name (r_path r))"

definition own_level :: "path \<Rightarrow> row list \<Rightarrow> row list" where
  "own_level p rows = filter (\<lambda>r. length (r_path r) = Suc (length p)) rows"



function relist :: "(path \<Rightarrow> (str \<times> node) list \<Rightarrow> (str \<times> node) list) \<Rightarrow> path \<Rightarrow> node \<Rightarrow> node" where
  "relist f p File = File"
| "relist f p (NoStat e) = NoStat e"
| "relist f p (Dir l cs) =
     Dir l (f p (map (\<lambda>item. (fst item, relist f (p @ [fst item]) (snd item))) cs))"
  by pat_completeness auto
termination
  apply (relation "measure (\<lambda>(f, p, nd). size nd)")
   apply simp
  apply clarsimp
  apply (erule size_entry)
  done

subsection \<open>Example inputs\<close>

text \<open>Paths from ASCII literals; the default configuration, the defaults with the
  allow-list \<^verbatim>\<open>['.ts']\<close>, and the defaults with a maximum depth.\<close>

definition plit :: "string list \<Rightarrow> path" where
  "plit ss = map lit ss"

definition cfg_default :: config where
  "cfg_default = init no_overrides"

definition cfg_ts :: config where
  "cfg_ts = init (no_overrides\<lparr>o_include_extensions := Some [lit ''.ts'']\<rparr>)"

definition cfg_depth :: "int \<Rightarrow> config" where
  "cfg_depth d = init (no_overrides\<lparr>o_max_depth := Some d\<rparr>)"

text \<open>Example snapshots: a root holding \<^verbatim>\<open>src/a.ts\<close>; one holding also a directory that
  cannot be listed; one in which the \<^verbatim>\<open>stat\<close> of an entry of \<^verbatim>\<open>src\<close> fails with an error that is
  not one of permission; and one in which it fails for want of permission.\<close>

definition snap_nested :: node where
  "snap_nested = Dir None [(lit ''src'', Dir None [(lit ''a.ts'', File)])]"



definition snap_nostat :: node where
  "snap_nostat =
     Dir None [(lit ''ronly'', Dir None [(lit ''k.ts'', NoStat Denied), (lit ''m.ts'', File)]),
               (lit ''b.ts'', File)]"

text \<open>A \<^verbatim>\<open>node_modules\<close> directory three levels below the root.\<close>

definition snap_modules :: node where
  "snap_modules =
     Dir None [(lit ''a'', Dir None [(lit ''b'', Dir None
       [(lit ''x.ts'', File),
        (lit ''node_modules'', Dir None [(lit ''pkg'', Dir None [(lit ''index.ts'', File)])])])])]"

text \<open>A root with files and directories in mixed case, and its rows.\<close>

definition snap_mixed :: node where
  "snap_mixed =
     Dir None [(lit ''b.ts'', File),
               (lit ''Zeta'', Dir None [(lit ''y.ts'', File), (lit ''X.ts'', File)]),
               (lit ''A.ts'', File), (lit ''alpha'', Dir None [])]"

definition mixed_rows :: "row list" where
  "mixed_rows =
     [\<lparr>r_path = plit [''proj'', ''alpha''], r_is_dir = True, r_line = branch @ lit ''alpha/''\<rparr>,
      \<lparr>r_path = plit [''proj'', ''Zeta''], r_is_dir = True, r_line = branch @ lit ''Zeta/''\<rparr>,
      \<lparr>r_path = plit [''proj'', ''Zeta'', ''X.ts''], r_is_dir = False,
        r_line = vertical @ branch @ lit ''X.ts''\<rparr>,
      \<lparr>r_path = plit [''proj'', ''Zeta'', ''y.ts''], r_is_dir = False,
        r_line = vertical @ corner @ lit ''y.ts''\<rparr>,
      \<lparr>r_path = plit [''proj'', ''A.ts''], r_is_dir = False, r_line = branch @ lit ''A.ts''\<rparr>,
      \<lparr>r_path = plit [''proj'', ''b.ts''], r_is_dir = False, r_line = corner @ lit ''b.ts''\<rparr>]"

text \<open>\<^verbatim>\<open>str.lower\<close> on strings of code points below 256: the capital letters, A to Z and
  U+00C0 to U+00DE without the multiplication sign U+00D7, move up by 32. And a root
  holding the files named U+00C9 (E with acute, a capital) and U+00E8 (e with grave).\<close>

definition latin1_lower :: "str \<Rightarrow> str" where
  "latin1_lower s =
     map (\<lambda>c. if (65 \<le> c \<and> c \<le> 90) \<or> (192 \<le> c \<and> c \<le> 222 \<and> c \<noteq> 215) then c + 32 else c) s"

definition snap_accents :: node where
  "snap_accents = Dir None [([201], File), ([232], File)]"


definition snap_collide :: node where
  "snap_collide = Dir None [(lit ''a.ts'', File), (lit ''A.ts'', File)]"

definition snap_two_failures :: node where
  "snap_two_failures = Dir None [(lit ''k.ts'', NoStat Denied), (lit ''long'', NoStat Broken)]"


section \<open>Properties\<close>

subsection \<open>The calls of the renderer\<close>

declare build_tree.simps [simp del]

lemma for_each_Inr:
  "(\<And>x. x \<in> set xs \<Longrightarrow> f x = Inr (g x)) \<Longrightarrow> for_each f xs = Inr (concat (map g xs))"
  by (induction xs) auto

lemma for_each_Inl:
  "for_each f xs = Inl e \<Longrightarrow> \<exists>x \<in> set xs. f x = Inl e"
  by (induction xs) (auto split: sum.splits)

lemma for_each_Inr_iff:
  "for_each f xs = Inr rows \<longleftrightarrow>
     (\<forall>x \<in> set xs. \<exists>ys. f x = Inr ys) \<and>
     rows = concat (map (\<lambda>x. case f x of Inl e \<Rightarrow> [] | Inr ys \<Rightarrow> ys) xs)"
proof (cases "\<forall>x \<in> set xs. \<exists>ys. f x = Inr ys")
  case True
  then have "\<And>x. x \<in> set xs \<Longrightarrow> f x = Inr (case f x of Inl e \<Rightarrow> [] | Inr ys \<Rightarrow> ys)"
    by fastforce
  from for_each_Inr [of xs f, OF this] True show ?thesis by auto
next
  case False
  then obtain x e where "x \<in> set xs" "f x = Inl e"
    by (metis sum.exhaust)
  then have "\<exists>e'. for_each f xs = Inl e'"
    by (induction xs) (auto split: sum.splits)
  with False show ?thesis by auto
qed

lemma for_each_Inl_intro:
  "x \<in> set xs \<Longrightarrow> f x = Inl e \<Longrightarrow> \<exists>e'. for_each f xs = Inl e'"
  by (induction xs) (auto split: sum.splits)

lemma raised_permission [simp]: "(raised f = PermissionError) = (f = Denied)"
  by (cases f) simp_all

lemma not_Denied [simp]: "(f \<noteq> Denied) = (f = Broken)"
  by (cases f) simp_all

lemma build_tree_File:
  "build_tree lw cfg p File pre depth root =
     (if depth_reached cfg depth then Inr [] else Inl NotADirectoryError)"
  by (subst build_tree.simps) simp

lemma build_tree_NoStat:
  "build_tree lw cfg p (NoStat f) pre depth root =
     (if depth_reached cfg depth \<or> f = Denied then Inr [] else Inl OSError)"
  by (subst build_tree.simps) auto

lemma build_tree_Dir_unfold:
  "build_tree lw cfg p (Dir l cs) pre depth root =
     (if depth_reached cfg depth then Inr []
      else (case l of
         Some f \<Rightarrow> (if f = Denied then Inr [] else Inl OSError)
       | None \<Rightarrow>
          (case stat_error cs of
             Some e \<Rightarrow> (if e = PermissionError then Inr [] else Inl e)
           | None \<Rightarrow>
             for_each
               (\<lambda>ix. if is_Dir (snd (snd ix))
                  then (case child_call lw cfg p pre depth root (length (contents lw cfg p root cs)) ix of
                         Inl e \<Rightarrow> Inl e
                       | Inr below \<Rightarrow>
                           Inr (entry_row p pre (length (contents lw cfg p root cs)) (fst ix) (snd ix) # below))
                  else Inr [entry_row p pre (length (contents lw cfg p root cs)) (fst ix) (snd ix)])
               (enumerate 0 (contents lw cfg p root cs)))))"
  apply (subst build_tree.simps)
  unfolding contents_def entry_row_def next_pre_def child_call_def Let_def case_prod_unfold
    Suc_eq_plus1
  apply (cases l)
   apply (simp split: option.splits)
  apply auto
  done

lemma rows_below_File [simp]: "rows_below lw cfg p File pre depth root = []"
  by (simp add: rows_below_def build_tree_File)

lemma rows_below_NoStat [simp]: "rows_below lw cfg p (NoStat f) pre depth root = []"
  by (simp add: rows_below_def build_tree_NoStat)

lemma rows_below_not_dir: "\<not> is_Dir nd \<Longrightarrow> rows_below lw cfg p nd pre depth root = []"
  by (cases nd) auto


lemma stat_error_cases:
  "stat_error cs = None \<or> stat_error cs = Some PermissionError \<or> stat_error cs = Some OSError"
proof (induction cs)
  case Nil
  show ?case by simp
next
  case (Cons item cs)
  then show ?case
  proof (cases "snd item")
    case (NoStat f)
    then show ?thesis by (cases f) auto
  qed auto
qed


lemma node_induct [case_names File NoStat Dir]:
  assumes "P File" and "\<And>f. P (NoStat f)"
    and "\<And>l cs. (\<And>n c. (n, c) \<in> set cs \<Longrightarrow> P c) \<Longrightarrow> P (Dir l cs)"
  shows "P nd"
proof (induction nd)
  case File
  show ?case by (rule assms(1))
next
  case (NoStat f)
  show ?case by (rule assms(2))
next
  case (Dir l cs)
  show ?case
  proof (rule assms(3))
    fix n c assume "(n, c) \<in> set cs"
    then show "P c" using Dir [of "(n, c)" c] by simp
  qed
qed

lemma enumerate_member_snd: "ix \<in> set (enumerate n xs) \<Longrightarrow> snd ix \<in> set xs"
  using enumerate_member [of "fst ix" "snd ix" n xs] by simp

lemma member_enumerate: "x \<in> set xs \<Longrightarrow> \<exists>i. (i, x) \<in> set (enumerate n xs)"
proof -
  assume "x \<in> set xs"
  then obtain k where "k < length xs" and "xs ! k = x" by (auto simp: in_set_conv_nth)
  then have "(n + k, x) \<in> set (enumerate n xs)" by (simp add: in_set_enumerate_eq)
  then show ?thesis ..
qed

lemma in_contents:
  "item \<in> set (contents lw cfg p root cs) \<longleftrightarrow>
     item \<in> set cs \<and> \<not> should_exclude cfg (p @ [fst item]) (is_Dir (snd item)) (Some root)"
  by (auto simp: contents_def)

lemma entry_row_sel [simp]:
  "r_path (entry_row p pre len i item) = p @ [fst item]"
  "r_is_dir (entry_row p pre len i item) = is_Dir (snd item)"
  by (simp_all add: entry_row_def)

lemma in_block:
  "r \<in> set (block lw cfg p pre depth root len ix) \<longleftrightarrow>
     r = entry_row p pre len (fst ix) (snd ix) \<or>
     r \<in> set (rows_below lw cfg (p @ [fst (snd ix)]) (snd (snd ix)) (next_pre pre len (fst ix))
               (Suc depth) root)"
  by (auto simp: block_def)

lemma round_rows:
  assumes "is_Dir (snd (snd ix)) \<longrightarrow> (\<exists>sub. child_call lw cfg p pre depth root len ix = Inr sub)"
  shows "(case (if is_Dir (snd (snd ix))
                then (case child_call lw cfg p pre depth root len ix of
                        Inl e \<Rightarrow> Inl e
                      | Inr below \<Rightarrow> Inr (entry_row p pre len (fst ix) (snd ix) # below))
                else Inr [entry_row p pre len (fst ix) (snd ix)]) of
            Inl e \<Rightarrow> [] | Inr ys \<Rightarrow> ys) = block lw cfg p pre depth root len ix"
proof (cases "is_Dir (snd (snd ix))")
  case True
  with assms obtain sub where "child_call lw cfg p pre depth root len ix = Inr sub" by blast
  with True show ?thesis by (simp add: block_def rows_below_def child_call_def)
next
  case False
  then show ?thesis by (simp add: block_def rows_below_not_dir)
qed

lemma build_tree_Dir_Inr:
  assumes "build_tree lw cfg p (Dir l cs) pre depth root = Inr rows"
  shows "(rows = [] \<and> (depth_reached cfg depth \<or> l = Some Denied \<or>
            (l = None \<and> stat_error cs = Some PermissionError))) \<or>
         (\<not> depth_reached cfg depth \<and> l = None \<and> stat_error cs = None \<and>
          rows = concat (map (block lw cfg p pre depth root (length (contents lw cfg p root cs)))
                          (enumerate 0 (contents lw cfg p root cs))) \<and>
          (\<forall>ix \<in> set (enumerate 0 (contents lw cfg p root cs)). is_Dir (snd (snd ix)) \<longrightarrow>
             (\<exists>sub. child_call lw cfg p pre depth root (length (contents lw cfg p root cs)) ix = Inr sub)))"
proof (cases "depth_reached cfg depth \<or> l \<noteq> None \<or> stat_error cs \<noteq> None")
  case True
  with assms show ?thesis
    by (auto simp: build_tree_Dir_unfold split: if_splits option.splits)
next
  case False
  let ?len = "length (contents lw cfg p root cs)"
  let ?body = "\<lambda>ix. if is_Dir (snd (snd ix))
                  then (case child_call lw cfg p pre depth root ?len ix of
                         Inl e \<Rightarrow> Inl e
                       | Inr below \<Rightarrow> Inr (entry_row p pre ?len (fst ix) (snd ix) # below))
                  else Inr [entry_row p pre ?len (fst ix) (snd ix)]"
  from False assms have fe: "for_each ?body (enumerate 0 (contents lw cfg p root cs)) = Inr rows"
    by (simp add: build_tree_Dir_unfold)
  then have all: "\<forall>ix \<in> set (enumerate 0 (contents lw cfg p root cs)). \<exists>ys. ?body ix = Inr ys"
    and rows: "rows = concat (map (\<lambda>ix. case ?body ix of Inl e \<Rightarrow> [] | Inr ys \<Rightarrow> ys)
                                (enumerate 0 (contents lw cfg p root cs)))"
    unfolding for_each_Inr_iff by blast+
  have sub: "\<exists>sub. child_call lw cfg p pre depth root ?len ix = Inr sub"
    if "ix \<in> set (enumerate 0 (contents lw cfg p root cs))" "is_Dir (snd (snd ix))" for ix
  proof (cases "child_call lw cfg p pre depth root ?len ix")
    case (Inl e)
    with all that show ?thesis by auto
  next
    case (Inr sub)
    then show ?thesis by blast
  qed
  have "(case ?body ix of Inl e \<Rightarrow> [] | Inr ys \<Rightarrow> ys) = block lw cfg p pre depth root ?len ix"
    if "ix \<in> set (enumerate 0 (contents lw cfg p root cs))" for ix
    by (rule round_rows) (use sub that in blast)
  then have "map (\<lambda>ix. case ?body ix of Inl e \<Rightarrow> [] | Inr ys \<Rightarrow> ys)
                (enumerate 0 (contents lw cfg p root cs)) =
             map (block lw cfg p pre depth root ?len) (enumerate 0 (contents lw cfg p root cs))"
    by (intro map_cong refl)
  with rows have "rows = concat (map (block lw cfg p pre depth root ?len)
                          (enumerate 0 (contents lw cfg p root cs)))"
    by (simp only:)
  with False sub show ?thesis by blast
qed

lemma rows_below_Dir_cases:
  "rows_below lw cfg p (Dir l cs) pre depth root = [] \<or>
   (\<not> depth_reached cfg depth \<and> l = None \<and> stat_error cs = None \<and>
    rows_below lw cfg p (Dir l cs) pre depth root =
      concat (map (block lw cfg p pre depth root (length (contents lw cfg p root cs)))
               (enumerate 0 (contents lw cfg p root cs))))"
proof (cases "build_tree lw cfg p (Dir l cs) pre depth root")
  case (Inl e)
  then show ?thesis by (simp add: rows_below_def)
next
  case (Inr rows)
  from build_tree_Dir_Inr [OF this] Inr show ?thesis
    by (auto simp: rows_below_def)
qed

lemma in_rows_below_Dir:
  assumes "r \<in> set (rows_below lw cfg p (Dir l cs) pre depth root)"
  shows "\<not> depth_reached cfg depth \<and> l = None \<and> stat_error cs = None \<and>
         (\<exists>ix \<in> set (enumerate 0 (contents lw cfg p root cs)).
             r \<in> set (block lw cfg p pre depth root (length (contents lw cfg p root cs)) ix))"
  using rows_below_Dir_cases [of lw cfg p l cs pre depth root] assms by auto

lemma stat_error_Broken:
  "stat_error cs = Some e \<Longrightarrow> e \<noteq> PermissionError \<Longrightarrow>
   e = OSError \<and> (\<exists>item \<in> set cs. snd item = NoStat Broken)"
proof (induction cs)
  case Nil
  then show ?case by simp
next
  case (Cons item cs)
  show ?case
  proof (cases "snd item")
    case (NoStat f)
    with Cons.prems show ?thesis by (cases f) auto
  next
    case File
    with Cons show ?thesis by auto
  next
    case (Dir l ds)
    with Cons show ?thesis by auto
  qed
qed

lemma build_tree_raises_OSError:
  "is_Dir nd \<Longrightarrow> build_tree lw cfg p nd pre depth root = Inl e \<Longrightarrow> e = OSError"
proof (induction nd arbitrary: p pre depth rule: node_induct)
  case File
  then show ?case by simp
next
  case (NoStat f)
  then show ?case by simp
next
  case (Dir l cs)
  let ?len = "length (contents lw cfg p root cs)"
  show ?case
  proof (cases "depth_reached cfg depth \<or> l \<noteq> None \<or> stat_error cs \<noteq> None")
    case True
    with Dir.prems(2) show ?thesis
      by (auto simp: build_tree_Dir_unfold split: if_splits option.splits dest: stat_error_Broken)
  next
    case False
    with Dir.prems(2) obtain ix where ix: "ix \<in> set (enumerate 0 (contents lw cfg p root cs))"
      and err: "(if is_Dir (snd (snd ix))
                  then (case child_call lw cfg p pre depth root ?len ix of
                         Inl e \<Rightarrow> Inl e
                       | Inr below \<Rightarrow> Inr (entry_row p pre ?len (fst ix) (snd ix) # below))
                  else Inr [entry_row p pre ?len (fst ix) (snd ix)]) = Inl e"
      by (auto simp: build_tree_Dir_unfold dest!: for_each_Inl)
    then have d: "is_Dir (snd (snd ix))" and c: "child_call lw cfg p pre depth root ?len ix = Inl e"
      by (auto split: if_splits sum.splits)
    from ix have "(fst (snd ix), snd (snd ix)) \<in> set cs"
      by (auto dest!: enumerate_member_snd simp: in_contents)
    from Dir.IH [OF this d] c show ?thesis by (simp add: child_call_def)
  qed
qed

subsection \<open>Errors\<close>






lemma build_tree_rows_below:
  "build_tree lw cfg p nd pre depth root = Inr rows \<Longrightarrow> rows = rows_below lw cfg p nd pre depth root"
  by (simp add: rows_below_def)

lemma build_tree_never:
  "build_tree lw cfg p nd pre depth root = Inl e \<Longrightarrow>
     e = OSError \<or> (e = NotADirectoryError \<and> nd = File)"
proof (cases nd)
  case File
  assume "build_tree lw cfg p nd pre depth root = Inl e"
  with File show ?thesis by (cases "depth_reached cfg depth") (auto simp: build_tree_File)
next
  case (NoStat f)
  assume "build_tree lw cfg p nd pre depth root = Inl e"
  with NoStat show ?thesis
    by (cases "depth_reached cfg depth \<or> f = Denied") (auto simp: build_tree_NoStat)
next
  case (Dir l cs)
  assume "build_tree lw cfg p nd pre depth root = Inl e"
  with Dir build_tree_raises_OSError [of nd lw cfg p pre depth root e] show ?thesis by simp
qed


lemma generate_tree_Inl:
  "(generate_tree lw cfg root pr snap = Inl e) = (tree_rows lw cfg root pr snap = Inl e)"
  by (auto simp: generate_tree_def tree_lines_def split: sum.splits)





text \<open>
  Claim C6, amended. A root that does not exist, and whose existence test works, makes the
  renderer fail with the not-found error and yields no lines and no text. A root that
  exists never fails with that error, whatever the existence test meets. When the
  existence test itself fails, or resolving the path meets a symbolic link loop, that
  exception reaches the caller instead, whether or not the path exists.
\<close>

theorem not_found_only_at_start:
  "generate_tree lw cfg root_path Reached None = Inl ValueError \<and>
   tree_lines lw cfg root_path Reached None = Inl ValueError \<and>
   (\<forall>nd. generate_tree lw cfg root_path pr (Some nd) \<noteq> Inl ValueError) \<and>
   (\<forall>f. generate_tree lw cfg root_path (Raises f) snap = Inl (raised f)) \<and>
   generate_tree lw cfg root_path Loops snap = Inl RuntimeError"
proof -
  have "generate_tree lw cfg root_path pr (Some nd) \<noteq> Inl ValueError" for nd
  proof (cases pr)
    case Reached
    then show ?thesis
      using build_tree_never [of lw cfg root_path nd "[]" 0 root_path ValueError]
      by (auto simp: generate_tree_Inl tree_rows_def)
  next
    case (Raises f)
    then show ?thesis by (cases f) (simp_all add: generate_tree_Inl tree_rows_def)
  next
    case Loops
    then show ?thesis by (simp add: generate_tree_Inl tree_rows_def)
  qed
  then show ?thesis
    by (simp add: generate_tree_def tree_lines_def tree_rows_def)
qed

text \<open>Claim C6 as stated fails for a root path that does not exist below a directory
  without search permission: the existence test raises \<^verbatim>\<open>PermissionError\<close>, not the
  not-found error.\<close>

theorem not_found_counterexample:
  "generate_tree ascii_lower cfg_default (plit [''proj'']) (Raises Denied) None = Inl PermissionError \<and>
   generate_tree ascii_lower cfg_default (plit [''proj'']) Loops None = Inl RuntimeError"
  by code_simp

text \<open>
  Claim C10. When listing the root itself raises a permission error, the result is the
  header line alone, and no error.
\<close>

theorem unreadable_root_header_only:
  "generate_tree lw cfg root_path Reached (Some (Dir (Some Denied) cs)) =
     Inr (name root_path @ lit ''/'') \<and>
   tree_lines lw cfg root_path Reached (Some (Dir (Some Denied) cs)) =
     Inr [name root_path @ lit ''/'']"
  by (simp add: generate_tree_def tree_lines_def tree_rows_def build_tree_Dir_unfold)

subsection \<open>The exclusion decision\<close>

lemma any_in_iff: "any_in ps s = (\<exists>pat \<in> set ps. sublist pat s)"
  by (induction ps) auto

lemma any_endswith_iff: "any_endswith ps nm = (\<exists>pat \<in> set ps. suffix pat nm)"
  by (induction ps) auto

lemma should_exclude_by_path_iff: "should_exclude_by_path cfg p root = rule_path cfg p root"
  by (simp add: should_exclude_by_path_def rule_path_def relative_to_def any_in_iff)

lemma should_exclude_rules:
  "should_exclude cfg p isdir (Some root) =
     (if rule_path cfg p root then True
      else if isdir then rule_dir_name cfg p
      else if rule_file_name cfg p then True
      else if rule_suffix cfg p then True
      else rule_allow_list cfg p)"
  by (auto simp add: should_exclude_def should_exclude_by_path_iff rule_dir_name_def
      rule_file_name_def rule_suffix_def rule_allow_list_def any_endswith_iff
      split: option.splits)

text \<open>
  Claim C2. The decision for an entry and a root follows the rules in their order, and the
  first rule that matches decides: a match of the path rule excludes files and directories
  alike; otherwise a directory is decided by the directory-name rule alone; otherwise a file
  is excluded by the file-name rule, else by the suffix rule, else by the allow-list rule,
  and is kept when none matches.
\<close>

theorem exclusion_rule_order:
  "(rule_path cfg p root \<longrightarrow> should_exclude cfg p isdir (Some root)) \<and>
   (\<not> rule_path cfg p root \<and> isdir \<longrightarrow>
      should_exclude cfg p isdir (Some root) = rule_dir_name cfg p) \<and>
   (\<not> rule_path cfg p root \<and> \<not> isdir \<and> rule_file_name cfg p \<longrightarrow>
      should_exclude cfg p isdir (Some root)) \<and>
   (\<not> rule_path cfg p root \<and> \<not> isdir \<and> \<not> rule_file_name cfg p \<and> rule_suffix cfg p \<longrightarrow>
      should_exclude cfg p isdir (Some root)) \<and>
   (\<not> rule_path cfg p root \<and> \<not> isdir \<and> \<not> rule_file_name cfg p \<and> \<not> rule_suffix cfg p \<longrightarrow>
      should_exclude cfg p isdir (Some root) = rule_allow_list cfg p)"
  by (simp add: should_exclude_rules)

text \<open>With the defaults and the allow-list \<^verbatim>\<open>['.ts']\<close>: a path pattern excludes a directory
  and a file below it; \<^verbatim>\<open>build\<close> is an excluded directory name; directories named \<^verbatim>\<open>.env\<close>
  and \<^verbatim>\<open>old.log\<close> are kept although files of these names are excluded by name and by
  suffix; \<^verbatim>\<open>a.md\<close> is excluded by the allow-list and \<^verbatim>\<open>a.ts\<close> is kept.\<close>

theorem exclusion_rule_order_witness:
  "should_exclude cfg_ts (plit [''r'', ''android'', ''gradle'', ''wrapper'']) True (Some (plit [''r''])) \<and>
   should_exclude cfg_ts (plit [''r'', ''android'', ''gradle'', ''wrapper'', ''x.ts'']) False (Some (plit [''r''])) \<and>
   should_exclude cfg_ts (plit [''r'', ''src'', ''build'']) True (Some (plit [''r''])) \<and>
   \<not> should_exclude cfg_ts (plit [''r'', ''src'', ''.env'']) True (Some (plit [''r''])) \<and>
   \<not> should_exclude cfg_ts (plit [''r'', ''src'', ''old.log'']) True (Some (plit [''r''])) \<and>
   should_exclude cfg_ts (plit [''r'', ''src'', ''.env'']) False (Some (plit [''r''])) \<and>
   should_exclude cfg_ts (plit [''r'', ''src'', ''old.log'']) False (Some (plit [''r''])) \<and>
   should_exclude cfg_ts (plit [''r'', ''src'', ''a.md'']) False (Some (plit [''r''])) \<and>
   \<not> should_exclude cfg_ts (plit [''r'', ''src'', ''a.ts'']) False (Some (plit [''r'']))"
proof -
  have 1: "rule_path cfg_ts (plit [''r'', ''android'', ''gradle'', ''wrapper'']) (plit [''r''])"
    by code_simp
  have 2: "rule_path cfg_ts (plit [''r'', ''android'', ''gradle'', ''wrapper'', ''x.ts'']) (plit [''r''])"
    by code_simp
  have 3: "\<not> rule_path cfg_ts (plit [''r'', ''src'', ''build'']) (plit [''r'']) \<and>
      rule_dir_name cfg_ts (plit [''r'', ''src'', ''build''])"
    by code_simp
  have 4: "\<not> rule_path cfg_ts (plit [''r'', ''src'', ''.env'']) (plit [''r'']) \<and>
      \<not> rule_dir_name cfg_ts (plit [''r'', ''src'', ''.env'']) \<and>
      rule_file_name cfg_ts (plit [''r'', ''src'', ''.env''])"
    by code_simp
  have 5: "\<not> rule_path cfg_ts (plit [''r'', ''src'', ''old.log'']) (plit [''r'']) \<and>
      \<not> rule_dir_name cfg_ts (plit [''r'', ''src'', ''old.log'']) \<and>
      \<not> rule_file_name cfg_ts (plit [''r'', ''src'', ''old.log'']) \<and>
      rule_suffix cfg_ts (plit [''r'', ''src'', ''old.log''])"
    by code_simp
  have 6: "\<not> rule_path cfg_ts (plit [''r'', ''src'', ''a.md'']) (plit [''r'']) \<and>
      \<not> rule_file_name cfg_ts (plit [''r'', ''src'', ''a.md'']) \<and>
      \<not> rule_suffix cfg_ts (plit [''r'', ''src'', ''a.md'']) \<and>
      rule_allow_list cfg_ts (plit [''r'', ''src'', ''a.md''])"
    by code_simp
  have 7: "\<not> rule_path cfg_ts (plit [''r'', ''src'', ''a.ts'']) (plit [''r'']) \<and>
      \<not> rule_file_name cfg_ts (plit [''r'', ''src'', ''a.ts'']) \<and>
      \<not> rule_suffix cfg_ts (plit [''r'', ''src'', ''a.ts'']) \<and>
      \<not> rule_allow_list cfg_ts (plit [''r'', ''src'', ''a.ts''])"
    by code_simp
  note t = exclusion_rule_order [of cfg_ts _ "(plit [''r''])"]
  from 1 t [of "(plit [''r'', ''android'', ''gradle'', ''wrapper''])" True]
  have c1: "should_exclude cfg_ts (plit [''r'', ''android'', ''gradle'', ''wrapper'']) True (Some (plit [''r'']))"
    by blast
  from 2 t [of "(plit [''r'', ''android'', ''gradle'', ''wrapper'', ''x.ts''])" False]
  have c2: "should_exclude cfg_ts (plit [''r'', ''android'', ''gradle'', ''wrapper'', ''x.ts'']) False (Some (plit [''r'']))"
    by blast
  from 3 t [of "(plit [''r'', ''src'', ''build''])" True]
  have c3: "should_exclude cfg_ts (plit [''r'', ''src'', ''build'']) True (Some (plit [''r'']))"
    by blast
  from 4 t [of "(plit [''r'', ''src'', ''.env''])" True]
  have c4: "\<not> should_exclude cfg_ts (plit [''r'', ''src'', ''.env'']) True (Some (plit [''r'']))"
    by blast
  from 5 t [of "(plit [''r'', ''src'', ''old.log''])" True]
  have c5: "\<not> should_exclude cfg_ts (plit [''r'', ''src'', ''old.log'']) True (Some (plit [''r'']))"
    by blast
  from 4 t [of "(plit [''r'', ''src'', ''.env''])" False]
  have c6: "should_exclude cfg_ts (plit [''r'', ''src'', ''.env'']) False (Some (plit [''r'']))"
    by blast
  from 5 t [of "(plit [''r'', ''src'', ''old.log''])" False]
  have c7: "should_exclude cfg_ts (plit [''r'', ''src'', ''old.log'']) False (Some (plit [''r'']))"
    by blast
  from 6 t [of "(plit [''r'', ''src'', ''a.md''])" False]
  have c8: "should_exclude cfg_ts (plit [''r'', ''src'', ''a.md'']) False (Some (plit [''r'']))"
    by blast
  from 7 t [of "(plit [''r'', ''src'', ''a.ts''])" False]
  have c9: "\<not> should_exclude cfg_ts (plit [''r'', ''src'', ''a.ts'']) False (Some (plit [''r'']))"
    by blast
  from c1 c2 c3 c4 c5 c6 c7 c8 c9 show ?thesis by blast
qed

subsection \<open>Entries shown when no depth stops the recursion\<close>

lemma kept_entries_shown:
  assumes "\<And>k. \<not> depth_reached cfg k"
  shows "build_tree lw cfg p nd pre depth root = Inr rows \<Longrightarrow>
         set (kept_entries cfg root p nd) = entry_of ` set rows"
proof (induction nd arbitrary: p pre depth rows rule: node_induct)
  case File
  then show ?case using assms by (simp add: build_tree_File)
next
  case (NoStat f)
  then show ?case by (auto simp: build_tree_NoStat split: if_splits)
next
  case (Dir l cs)
  let ?cts = "contents lw cfg p root cs"
  let ?len = "length ?cts"
  from build_tree_Dir_Inr [OF Dir.prems] assms [of depth]
  consider (empty) "rows = []" "l = Some Denied \<or> (l = None \<and> stat_error cs = Some PermissionError)"
    | (full) "l = None" "stat_error cs = None"
        "rows = concat (map (block lw cfg p pre depth root ?len) (enumerate 0 ?cts))"
        "\<forall>ix \<in> set (enumerate 0 ?cts). is_Dir (snd (snd ix)) \<longrightarrow>
             (\<exists>sub. child_call lw cfg p pre depth root ?len ix = Inr sub)"
    by (elim disjE conjE) simp_all
  then show ?case
  proof cases
    case empty
    then show ?thesis by auto
  next
    case full
    have child: "set (kept_entries cfg root (p @ [fst (snd ix)]) (snd (snd ix))) =
       entry_of ` set (rows_below lw cfg (p @ [fst (snd ix)]) (snd (snd ix))
                        (next_pre pre ?len (fst ix)) (Suc depth) root)"
      if ix: "ix \<in> set (enumerate 0 ?cts)" for ix
    proof (cases "is_Dir (snd (snd ix))")
      case False
      then show ?thesis by (cases "snd (snd ix)") auto
    next
      case True
      with full(4) ix obtain sub where sub: "child_call lw cfg p pre depth root ?len ix = Inr sub"
        by blast
      from ix have "(fst (snd ix), snd (snd ix)) \<in> set cs"
        by (auto dest!: enumerate_member_snd simp: in_contents)
      from Dir.IH [OF this, of "p @ [fst (snd ix)]" "next_pre pre ?len (fst ix)" "Suc depth" sub] sub
      show ?thesis by (simp add: child_call_def rows_below_def)
    qed
    have blk: "entry_of ` set (block lw cfg p pre depth root ?len ix) =
       insert (p @ [fst (snd ix)], is_Dir (snd (snd ix)))
         (set (kept_entries cfg root (p @ [fst (snd ix)]) (snd (snd ix))))"
      if "ix \<in> set (enumerate 0 ?cts)" for ix
      using child [OF that] by (simp add: block_def entry_of_def)
    show ?thesis
    proof (intro set_eqI iffI)
      fix e assume "e \<in> set (kept_entries cfg root p (Dir l cs))"
      with full(1,2) obtain item where item: "item \<in> set cs"
          "\<not> should_exclude cfg (p @ [fst item]) (is_Dir (snd item)) (Some root)"
          "e \<in> insert (p @ [fst item], is_Dir (snd item))
                 (set (kept_entries cfg root (p @ [fst item]) (snd item)))"
        by (auto split: if_splits)
      then have "item \<in> set ?cts" by (simp add: in_contents)
      then obtain i where i: "(i, item) \<in> set (enumerate 0 ?cts)"
        using member_enumerate [of item ?cts 0] by blast
      from blk [OF i] item(3) have "e \<in> entry_of ` set (block lw cfg p pre depth root ?len (i, item))"
        by simp
      with i show "e \<in> entry_of ` set rows"
        unfolding full(3) by auto
    next
      fix e assume "e \<in> entry_of ` set rows"
      then obtain ix where ix: "ix \<in> set (enumerate 0 ?cts)"
        and "e \<in> entry_of ` set (block lw cfg p pre depth root ?len ix)"
        unfolding full(3) by auto
      with blk [OF ix] have e: "e \<in> insert (p @ [fst (snd ix)], is_Dir (snd (snd ix)))
         (set (kept_entries cfg root (p @ [fst (snd ix)]) (snd (snd ix))))"
        by simp
      from ix have "snd ix \<in> set cs"
        "\<not> should_exclude cfg (p @ [fst (snd ix)]) (is_Dir (snd (snd ix))) (Some root)"
        by (auto dest!: enumerate_member_snd simp: in_contents)
      with e full(1,2) show "e \<in> set (kept_entries cfg root p (Dir l cs))"
        by (auto intro!: bexI [of _ "snd ix"])
    qed
  qed
qed

subsection \<open>A depth limit of zero\<close>

lemma contents_cong_cfg:
  "should_exclude cfg = should_exclude cfg' \<Longrightarrow>
   contents lw cfg p root cs = contents lw cfg' p root cs"
  by (simp add: contents_def)

lemma build_tree_cong_cfg:
  assumes "depth_reached cfg = depth_reached cfg'" and "should_exclude cfg = should_exclude cfg'"
  shows "build_tree lw cfg p nd pre depth root = build_tree lw cfg' p nd pre depth root"
proof (induction nd arbitrary: p pre depth rule: node_induct)
  case File
  show ?case by (simp add: build_tree_File assms(1))
next
  case (NoStat f)
  show ?case by (simp add: build_tree_NoStat assms(1))
next
  case (Dir l cs)
  have "child_call lw cfg p pre depth root len ix = child_call lw cfg' p pre depth root len ix"
    if "ix \<in> set (enumerate 0 (contents lw cfg' p root cs))" for ix len
  proof -
    from that have "(fst (snd ix), snd (snd ix)) \<in> set cs"
      by (auto dest!: enumerate_member_snd simp: in_contents)
    from Dir.IH [OF this] show ?thesis by (simp add: child_call_def)
  qed
  then show ?case
    unfolding build_tree_Dir_unfold contents_cong_cfg [OF assms(2), of lw p root cs] assms(1)
    by (auto split: option.splits intro!: for_each_cong)
qed

lemma depth_reached_zero:
  "depth_reached (cfg\<lparr>max_depth := Some 0\<rparr>) = depth_reached (cfg\<lparr>max_depth := None\<rparr>)"
  by (simp add: depth_reached_def fun_eq_iff)

lemma by_path_max_depth:
  "should_exclude_by_path (cfg\<lparr>max_depth := d\<rparr>) p r = should_exclude_by_path cfg p r"
  by (simp add: should_exclude_by_path_def cong: sum.case_cong)

lemma should_exclude_max_depth:
  "should_exclude (cfg\<lparr>max_depth := d\<rparr>) = should_exclude cfg"
  by (intro ext) (simp add: should_exclude_def by_path_max_depth cong: option.case_cong)

lemma tree_rows_cong_cfg:
  assumes "depth_reached cfg = depth_reached cfg'" and "should_exclude cfg = should_exclude cfg'"
  shows "tree_rows lw cfg root pr snap = tree_rows lw cfg' root pr snap"
  using build_tree_cong_cfg [OF assms]
  by (simp add: tree_rows_def split: probe.splits option.splits)

text \<open>
  Claim C9. A maximum depth of 0 renders exactly what an unset maximum depth renders, for
  every root, snapshot and outcome of the start of the run. The depth guard holds at no
  depth when the maximum depth is 0, so the recursion is never stopped by it, and a run that
  returns shows the full tree: its rows are exactly the kept entries, at every depth. And
  \<^verbatim>\<open>main\<close> drops a depth limit of 0 given on the command line, so the generator it builds has
  no maximum depth.
\<close>

theorem depth_zero_is_unlimited:
  "generate_tree lw (cfg\<lparr>max_depth := Some 0\<rparr>) root_path pr snap =
     generate_tree lw (cfg\<lparr>max_depth := None\<rparr>) root_path pr snap \<and>
   tree_lines lw (cfg\<lparr>max_depth := Some 0\<rparr>) root_path pr snap =
     tree_lines lw (cfg\<lparr>max_depth := None\<rparr>) root_path pr snap \<and>
   (\<forall>depth. \<not> depth_reached (cfg\<lparr>max_depth := Some 0\<rparr>) depth) \<and>
   (\<forall>nd rows. tree_rows lw (cfg\<lparr>max_depth := Some 0\<rparr>) root_path pr (Some nd) = Inr rows \<longrightarrow>
      set (kept_entries (cfg\<lparr>max_depth := Some 0\<rparr>) root_path root_path nd) = entry_of ` set rows) \<and>
   main_generator (a\<lparr>a_max_depth := Some 0\<rparr>) = main_generator (a\<lparr>a_max_depth := None\<rparr>) \<and>
   max_depth (main_generator (a\<lparr>a_max_depth := Some 0\<rparr>)) = None"
proof -
  have "tree_rows lw (cfg\<lparr>max_depth := Some 0\<rparr>) root_path pr snap =
        tree_rows lw (cfg\<lparr>max_depth := None\<rparr>) root_path pr snap"
    by (rule tree_rows_cong_cfg) (simp_all add: depth_reached_zero should_exclude_max_depth)
  then have eq: "generate_tree lw (cfg\<lparr>max_depth := Some 0\<rparr>) root_path pr snap =
       generate_tree lw (cfg\<lparr>max_depth := None\<rparr>) root_path pr snap"
    "tree_lines lw (cfg\<lparr>max_depth := Some 0\<rparr>) root_path pr snap =
       tree_lines lw (cfg\<lparr>max_depth := None\<rparr>) root_path pr snap"
    by (simp_all add: generate_tree_def tree_lines_def)
  have never: "\<not> depth_reached (cfg\<lparr>max_depth := Some 0\<rparr>) depth" for depth
    by (simp add: depth_reached_def)
  have full: "set (kept_entries (cfg\<lparr>max_depth := Some 0\<rparr>) root_path root_path nd) = entry_of ` set rows"
    if "tree_rows lw (cfg\<lparr>max_depth := Some 0\<rparr>) root_path pr (Some nd) = Inr rows" for nd rows
  proof -
    from that have "build_tree lw (cfg\<lparr>max_depth := Some 0\<rparr>) root_path nd [] 0 root_path = Inr rows"
      by (cases pr) (simp_all add: tree_rows_def)
    from kept_entries_shown [OF never this] show ?thesis .
  qed
  have "main_config (a\<lparr>a_max_depth := Some 0\<rparr>) = main_config (a\<lparr>a_max_depth := None\<rparr>)"
    by (simp add: main_config_def)
  moreover have "o_max_depth (main_config (a\<lparr>a_max_depth := None\<rparr>)) = None"
    by (simp add: main_config_def Let_def no_overrides_def split: option.splits)
  ultimately have m: "main_generator (a\<lparr>a_max_depth := Some 0\<rparr>) = main_generator (a\<lparr>a_max_depth := None\<rparr>)"
    "max_depth (main_generator (a\<lparr>a_max_depth := Some 0\<rparr>)) = None"
    by (simp_all add: main_generator_def init_def)
  from eq never full m show ?thesis by blast
qed

text \<open>A root holding \<^verbatim>\<open>src/a.ts\<close>, rendered with the defaults and a maximum depth of 0: the
  entry two levels below the root is shown, as it is with no maximum depth, where a maximum
  depth of 1 hides it.\<close>

theorem depth_zero_is_unlimited_witness:
  "tree_rows ascii_lower (cfg_default\<lparr>max_depth := Some 0\<rparr>) (plit [''proj'']) Reached (Some snap_nested) =
     Inr [\<lparr>r_path = plit [''proj'', ''src''], r_is_dir = True, r_line = corner @ lit ''src/''\<rparr>,
          \<lparr>r_path = plit [''proj'', ''src'', ''a.ts''], r_is_dir = False,
            r_line = blank @ corner @ lit ''a.ts''\<rparr>] \<and>
   set (kept_entries (cfg_default\<lparr>max_depth := Some 0\<rparr>) (plit [''proj'']) (plit [''proj'']) snap_nested) =
     entry_of ` set [\<lparr>r_path = plit [''proj'', ''src''], r_is_dir = True, r_line = corner @ lit ''src/''\<rparr>,
          \<lparr>r_path = plit [''proj'', ''src'', ''a.ts''], r_is_dir = False,
            r_line = blank @ corner @ lit ''a.ts''\<rparr>] \<and>
   tree_lines ascii_lower (cfg_default\<lparr>max_depth := Some 0\<rparr>) (plit [''proj'']) Reached (Some snap_nested) =
     Inr [lit ''proj/'', corner @ lit ''src/'', blank @ corner @ lit ''a.ts''] \<and>
   tree_lines ascii_lower (cfg_default\<lparr>max_depth := None\<rparr>) (plit [''proj'']) Reached (Some snap_nested) =
     Inr [lit ''proj/'', corner @ lit ''src/'', blank @ corner @ lit ''a.ts''] \<and>
   tree_lines ascii_lower (cfg_default\<lparr>max_depth := Some 1\<rparr>) (plit [''proj'']) Reached (Some snap_nested) =
     Inr [lit ''proj/'', corner @ lit ''src/'']"
proof -
  have a: "tree_rows ascii_lower (cfg_default\<lparr>max_depth := Some 0\<rparr>) (plit [''proj'']) Reached (Some snap_nested) =
     Inr [\<lparr>r_path = plit [''proj'', ''src''], r_is_dir = True, r_line = corner @ lit ''src/''\<rparr>,
          \<lparr>r_path = plit [''proj'', ''src'', ''a.ts''], r_is_dir = False,
            r_line = blank @ corner @ lit ''a.ts''\<rparr>]"
    by code_simp
  have b: "tree_lines ascii_lower (cfg_default\<lparr>max_depth := Some 0\<rparr>) (plit [''proj'']) Reached (Some snap_nested) =
     Inr [lit ''proj/'', corner @ lit ''src/'', blank @ corner @ lit ''a.ts'']"
    by code_simp
  have c: "tree_lines ascii_lower (cfg_default\<lparr>max_depth := Some 1\<rparr>) (plit [''proj'']) Reached (Some snap_nested) =
     Inr [lit ''proj/'', corner @ lit ''src/'']"
    by code_simp
  note t = depth_zero_is_unlimited [of ascii_lower cfg_default "plit [''proj'']" Reached "Some snap_nested"]
  from t a have k: "set (kept_entries (cfg_default\<lparr>max_depth := Some 0\<rparr>) (plit [''proj'']) (plit [''proj'']) snap_nested) =
     entry_of ` set [\<lparr>r_path = plit [''proj'', ''src''], r_is_dir = True, r_line = corner @ lit ''src/''\<rparr>,
          \<lparr>r_path = plit [''proj'', ''src'', ''a.ts''], r_is_dir = False,
            r_line = blank @ corner @ lit ''a.ts''\<rparr>]"
    by blast
  from t b have d: "tree_lines ascii_lower (cfg_default\<lparr>max_depth := None\<rparr>) (plit [''proj'']) Reached (Some snap_nested) =
     Inr [lit ''proj/'', corner @ lit ''src/'', blank @ corner @ lit ''a.ts'']"
    by simp
  from a k b d c show ?thesis by blast
qed

subsection \<open>The depth law\<close>

lemma depth_bound:
  assumes "max_depth cfg = Some d" and "d \<noteq> 0"
  shows "r \<in> set (rows_below lw cfg p nd pre depth root) \<Longrightarrow>
         int (length (r_path r)) + int depth \<le> int (length p) + d"
proof (induction nd arbitrary: p pre depth rule: node_induct)
  case File
  then show ?case by simp
next
  case (NoStat f)
  then show ?case by simp
next
  case (Dir l cs)
  let ?len = "length (contents lw cfg p root cs)"
  from in_rows_below_Dir [OF Dir.prems] obtain ix where
    nd: "\<not> depth_reached cfg depth" and
    it: "ix \<in> set (enumerate 0 (contents lw cfg p root cs))" and
    r: "r \<in> set (block lw cfg p pre depth root ?len ix)"
    by blast
  from nd assms have lt: "int depth < d" by (simp add: depth_reached_def)
  from it have mem: "(fst (snd ix), snd (snd ix)) \<in> set cs"
    by (auto dest!: enumerate_member_snd simp: in_contents)
  from r [unfolded in_block] show ?case
  proof
    assume "r = entry_row p pre ?len (fst ix) (snd ix)"
    with lt show ?thesis by simp
  next
    assume "r \<in> set (rows_below lw cfg (p @ [fst (snd ix)]) (snd (snd ix))
                 (next_pre pre ?len (fst ix)) (Suc depth) root)"
    from Dir.IH [OF mem this] show ?thesis by simp
  qed
qed

lemma negative_depth_no_rows:
  assumes "max_depth cfg = Some d" and "d < 0"
  shows "rows_below lw cfg p nd pre depth root = []"
proof -
  from assms have "depth_reached cfg depth" by (simp add: depth_reached_def)
  then show ?thesis
  proof (cases nd)
    case (Dir l cs)
    with \<open>depth_reached cfg depth\<close> show ?thesis
      by (simp add: rows_below_def build_tree_Dir_unfold)
  qed simp_all
qed

text \<open>
  Claim C1, amended. Of a run that returns: with the maximum depth set to a value \<open>d\<close> other
  than 0, no emitted entry is deeper than \<open>d\<close> levels below the root, and for a negative \<open>d\<close>
  nothing but the header is produced. With the maximum depth unset, the emitted entries, at
  any depth, are exactly the kept ones: those that are not excluded and lie below
  directories that are not excluded, that can be listed, and all of whose entries can be
  examined.
\<close>

theorem depth_law:
  assumes "tree_rows lw cfg root pr snap = Inr rows"
  shows "(\<forall>d. max_depth cfg = Some d \<and> d \<noteq> 0 \<longrightarrow>
            (\<forall>r \<in> set rows. int (length (r_path r)) \<le> int (length root) + d)) \<and>
         (\<forall>d. max_depth cfg = Some d \<and> d < 0 \<longrightarrow> rows = []) \<and>
         (max_depth cfg = None \<longrightarrow>
            (\<forall>nd. snap = Some nd \<longrightarrow> set (kept_entries cfg root root nd) = entry_of ` set rows))"
proof -
  from assms obtain nd where snap: "snap = Some nd"
    and run: "build_tree lw cfg root nd [] 0 root = Inr rows"
    by (cases pr; cases snap) (simp_all add: tree_rows_def)
  from run have rows: "rows = rows_below lw cfg root nd [] 0 root"
    by (rule build_tree_rows_below)
  have "int (length (r_path r)) \<le> int (length root) + d"
    if "max_depth cfg = Some d" "d \<noteq> 0" "r \<in> set rows" for d r
    using depth_bound [OF that(1,2), of r lw root nd "[]" 0 root] that(3) rows by simp
  moreover have "rows = []" if "max_depth cfg = Some d" "d < 0" for d
    using negative_depth_no_rows [OF that] rows by simp
  moreover have "set (kept_entries cfg root root nd) = entry_of ` set rows"
    if "max_depth cfg = None"
  proof -
    from that have "\<And>k. \<not> depth_reached cfg k" by (simp add: depth_reached_def)
    from kept_entries_shown [OF this run] show ?thesis .
  qed
  ultimately show ?thesis using snap by blast
qed

text \<open>A root holding \<^verbatim>\<open>src/a.ts\<close>, rendered with maximum depth 1, with maximum depth -1 and
  with the default configuration.\<close>

theorem depth_law_witness:
  "tree_rows ascii_lower (cfg_depth 1) (plit [''proj'']) Reached (Some snap_nested) =
     Inr [\<lparr>r_path = plit [''proj'', ''src''], r_is_dir = True, r_line = corner @ lit ''src/''\<rparr>] \<and>
   max_depth (cfg_depth 1) = Some 1 \<and>
   int (length (plit [''proj'', ''src''])) \<le> int (length (plit [''proj''])) + 1 \<and>
   tree_rows ascii_lower (cfg_depth (- 1)) (plit [''proj'']) Reached (Some snap_nested) = Inr [] \<and>
   max_depth (cfg_depth (- 1)) = Some (- 1) \<and>
   tree_rows ascii_lower cfg_default (plit [''proj'']) Reached (Some snap_nested) =
     Inr [\<lparr>r_path = plit [''proj'', ''src''], r_is_dir = True, r_line = corner @ lit ''src/''\<rparr>,
          \<lparr>r_path = plit [''proj'', ''src'', ''a.ts''], r_is_dir = False,
            r_line = blank @ corner @ lit ''a.ts''\<rparr>] \<and>
   max_depth cfg_default = None \<and>
   set (kept_entries cfg_default (plit [''proj'']) (plit [''proj'']) snap_nested) =
     entry_of ` set [\<lparr>r_path = plit [''proj'', ''src''], r_is_dir = True, r_line = corner @ lit ''src/''\<rparr>,
          \<lparr>r_path = plit [''proj'', ''src'', ''a.ts''], r_is_dir = False,
            r_line = blank @ corner @ lit ''a.ts''\<rparr>]"
proof -
  have a: "tree_rows ascii_lower (cfg_depth 1) (plit [''proj'']) Reached (Some snap_nested) =
     Inr [\<lparr>r_path = plit [''proj'', ''src''], r_is_dir = True, r_line = corner @ lit ''src/''\<rparr>]"
    by code_simp
  have a': "max_depth (cfg_depth 1) = Some 1" by code_simp
  have b: "tree_rows ascii_lower (cfg_depth (- 1)) (plit [''proj'']) Reached (Some snap_nested) = Inr []"
    by code_simp
  have b': "max_depth (cfg_depth (- 1)) = Some (- 1)" by code_simp
  have c: "tree_rows ascii_lower cfg_default (plit [''proj'']) Reached (Some snap_nested) =
     Inr [\<lparr>r_path = plit [''proj'', ''src''], r_is_dir = True, r_line = corner @ lit ''src/''\<rparr>,
          \<lparr>r_path = plit [''proj'', ''src'', ''a.ts''], r_is_dir = False,
            r_line = blank @ corner @ lit ''a.ts''\<rparr>]"
    by code_simp
  have c': "max_depth cfg_default = None" by code_simp
  from depth_law [OF a] a'
  have w1: "int (length (plit [''proj'', ''src''])) \<le> int (length (plit [''proj''])) + 1"
    by simp
  from depth_law [OF c] c'
  have w2: "set (kept_entries cfg_default (plit [''proj'']) (plit [''proj'']) snap_nested) =
     entry_of ` set [\<lparr>r_path = plit [''proj'', ''src''], r_is_dir = True, r_line = corner @ lit ''src/''\<rparr>,
          \<lparr>r_path = plit [''proj'', ''src'', ''a.ts''], r_is_dir = False,
            r_line = blank @ corner @ lit ''a.ts''\<rparr>]"
    by simp
  from a a' w1 b b' c c' w2 show ?thesis by blast
qed

text \<open>Claim C1 as stated fails at a maximum depth of 0: the root holding \<^verbatim>\<open>src/a.ts\<close> is
  rendered in full, three lines, with an entry two levels below the root. Read to the
  letter, its second half fails too. With no maximum depth, \<^verbatim>\<open>a/b/node_modules/pkg/index.ts\<close>
  is not excluded by the decision function, and it is not in the output, because the
  directory \<^verbatim>\<open>node_modules\<close> above it is pruned. And \<^verbatim>\<open>ronly/m.ts\<close> is not excluded, nor is
  any directory above it, and it is not in the output, because its sibling \<^verbatim>\<open>k.ts\<close> cannot be
  examined for want of permission, which leaves \<^verbatim>\<open>ronly\<close> without children.\<close>

theorem depth_law_counterexample:
  "max_depth (cfg_depth 0) = Some 0 \<and>
   tree_lines ascii_lower (cfg_depth 0) (plit [''proj'']) Reached (Some snap_nested) =
     Inr [lit ''proj/'', corner @ lit ''src/'', blank @ corner @ lit ''a.ts''] \<and>
   tree_rows ascii_lower (cfg_depth 0) (plit [''proj'']) Reached (Some snap_nested) =
     Inr [\<lparr>r_path = plit [''proj'', ''src''], r_is_dir = True, r_line = corner @ lit ''src/''\<rparr>,
          \<lparr>r_path = plit [''proj'', ''src'', ''a.ts''], r_is_dir = False,
            r_line = blank @ corner @ lit ''a.ts''\<rparr>] \<and>
   max_depth cfg_ts = None \<and>
   \<not> should_exclude cfg_ts (plit [''proj'', ''a'', ''b'', ''node_modules'', ''pkg'', ''index.ts'']) False
       (Some (plit [''proj''])) \<and>
   tree_rows ascii_lower cfg_ts (plit [''proj'']) Reached (Some snap_modules) =
     Inr [\<lparr>r_path = plit [''proj'', ''a''], r_is_dir = True, r_line = corner @ lit ''a/''\<rparr>,
          \<lparr>r_path = plit [''proj'', ''a'', ''b''], r_is_dir = True,
            r_line = blank @ corner @ lit ''b/''\<rparr>,
          \<lparr>r_path = plit [''proj'', ''a'', ''b'', ''x.ts''], r_is_dir = False,
            r_line = blank @ blank @ corner @ lit ''x.ts''\<rparr>] \<and>
   max_depth cfg_default = None \<and>
   \<not> should_exclude cfg_default (plit [''proj'', ''ronly'', ''m.ts'']) False (Some (plit [''proj''])) \<and>
   \<not> should_exclude cfg_default (plit [''proj'', ''ronly'']) True (Some (plit [''proj''])) \<and>
   tree_rows ascii_lower cfg_default (plit [''proj'']) Reached (Some snap_nostat) =
     Inr [\<lparr>r_path = plit [''proj'', ''ronly''], r_is_dir = True, r_line = branch @ lit ''ronly/''\<rparr>,
          \<lparr>r_path = plit [''proj'', ''b.ts''], r_is_dir = False, r_line = corner @ lit ''b.ts''\<rparr>]"
  by code_simp

subsection \<open>Pruned and unreadable directories\<close>

lemma kept_directory_name:
  "\<not> should_exclude cfg (p @ [n]) True root \<Longrightarrow> n \<notin> exclude_dirs cfg"
  by (auto simp: should_exclude_def name_def split: if_splits)

lemma rows_avoid:
  assumes "nm \<in> exclude_dirs cfg"
  shows "r \<in> set (rows_below lw cfg p nd pre depth root) \<Longrightarrow>
         \<exists>rest. r_path r = p @ rest \<and> rest \<noteq> [] \<and> nm \<notin> set (butlast rest) \<and>
                (r_is_dir r \<longrightarrow> last rest \<noteq> nm)"
proof (induction nd arbitrary: p pre depth rule: node_induct)
  case File
  then show ?case by simp
next
  case (NoStat f)
  then show ?case by simp
next
  case (Dir l cs)
  let ?len = "length (contents lw cfg p root cs)"
  from in_rows_below_Dir [OF Dir.prems] obtain ix where
    it: "ix \<in> set (enumerate 0 (contents lw cfg p root cs))" and
    r: "r \<in> set (block lw cfg p pre depth root ?len ix)"
    by blast
  obtain i item where ix: "ix = (i, item)" by (cases ix)
  from it ix have mem: "(fst item, snd item) \<in> set cs"
    and keep: "\<not> should_exclude cfg (p @ [fst item]) (is_Dir (snd item)) (Some root)"
    by (auto dest!: enumerate_member_snd simp: in_contents)
  have ne: "fst item \<noteq> nm" if "is_Dir (snd item)"
    using keep that kept_directory_name [of cfg p "fst item" "Some root"] assms by auto
  from r [unfolded in_block ix] show ?case
  proof
    assume "r = entry_row p pre ?len (fst (i, item)) (snd (i, item))"
    with ne have "r_path r = p @ [fst item] \<and> [fst item] \<noteq> [] \<and> nm \<notin> set (butlast [fst item]) \<and>
                (r_is_dir r \<longrightarrow> last [fst item] \<noteq> nm)"
      by simp
    then show ?thesis by blast
  next
    assume "r \<in> set (rows_below lw cfg (p @ [fst (snd (i, item))]) (snd (snd (i, item)))
                 (next_pre pre ?len (fst (i, item))) (Suc depth) root)"
    then have sub: "r \<in> set (rows_below lw cfg (p @ [fst item]) (snd item)
                 (next_pre pre ?len i) (Suc depth) root)" by simp
    then have "is_Dir (snd item)" using rows_below_not_dir by fastforce
    then have n: "fst item \<noteq> nm" by (rule ne)
    from Dir.IH [OF mem sub] obtain rest where
      rest: "r_path r = (p @ [fst item]) @ rest" "rest \<noteq> []" "nm \<notin> set (butlast rest)"
        "r_is_dir r \<longrightarrow> last rest \<noteq> nm"
      by blast
    with n have "r_path r = p @ (fst item # rest) \<and> fst item # rest \<noteq> [] \<and>
        nm \<notin> set (butlast (fst item # rest)) \<and> (r_is_dir r \<longrightarrow> last (fst item # rest) \<noteq> nm)"
      by simp
    then show ?thesis by blast
  qed
qed

lemma insort_key_map:
  "insort_key k (g x) (map g xs) = map g (insort_key (\<lambda>y. k (g y)) x xs)"
  by (induction xs) auto

lemma sort_key_map: "sort_key k (map g xs) = map g (sort_key (\<lambda>y. k (g y)) xs)"
  by (induction xs) (simp_all add: insort_key_map)

lemma enumerate_map: "enumerate n (map g xs) = map (\<lambda>ix. (fst ix, g (snd ix))) (enumerate n xs)"
  by (induction xs arbitrary: n) auto

lemma for_each_map: "for_each body (map h xs) = for_each (\<lambda>x. body (h x)) xs"
  by (induction xs) (simp_all split: sum.splits)

lemma is_Dir_is_dir: "is_Dir nd = (is_dir nd = Inr True)"
  by (cases nd) simp_all

lemma stat_error_map:
  assumes "\<And>x. is_dir (snd (g x)) = is_dir (snd x)"
  shows "stat_error (map g cs) = stat_error cs"
  by (induction cs) (simp_all add: assms split: sum.splits)

lemma contents_map:
  assumes "\<And>x. fst (g x) = fst x" and "\<And>x. is_Dir (snd (g x)) = is_Dir (snd x)"
  shows "contents lw cfg p root (map g cs) = map g (contents lw cfg p root cs)"
  using assms by (simp add: contents_def sort_key_map sort_k_def [abs_def] filter_map comp_def)

lemma entry_row_map:
  assumes "fst (g x) = fst x" and "is_Dir (snd (g x)) = is_Dir (snd x)"
  shows "entry_row p pre len i (g x) = entry_row p pre len i x"
  using assms by (simp add: entry_row_def)

lemma build_tree_map_children:
  assumes fst: "\<And>x. fst (g x) = fst x" and dir: "\<And>x. is_dir (snd (g x)) = is_dir (snd x)"
    and sub: "\<And>x pre'. x \<in> set (contents lw cfg p root cs) \<Longrightarrow> is_Dir (snd x) \<Longrightarrow>
       build_tree lw cfg (p @ [fst x]) (snd (g x)) pre' (Suc depth) root =
       build_tree lw cfg (p @ [fst x]) (snd x) pre' (Suc depth) root"
  shows "build_tree lw cfg p (Dir l (map g cs)) pre depth root =
         build_tree lw cfg p (Dir l cs) pre depth root"
proof -
  let ?cs = "contents lw cfg p root cs"
  have D: "is_Dir (snd (g x)) = is_Dir (snd x)" for x
    using dir [of x] by (simp add: is_Dir_is_dir)
  have cm: "contents lw cfg p root (map g cs) = map g ?cs"
    by (rule contents_map) (simp_all add: fst D)
  have st: "stat_error (map g cs) = stat_error cs"
    by (rule stat_error_map) (rule dir)
  have body: "(if is_Dir (snd (g (snd ix)))
          then (case child_call lw cfg p pre depth root (length ?cs) (fst ix, g (snd ix)) of
                  Inl e \<Rightarrow> Inl e
                | Inr below \<Rightarrow> Inr (entry_row p pre (length ?cs) (fst ix) (g (snd ix)) # below))
          else Inr [entry_row p pre (length ?cs) (fst ix) (g (snd ix))]) =
        (if is_Dir (snd (snd ix))
          then (case child_call lw cfg p pre depth root (length ?cs) ix of
                  Inl e \<Rightarrow> Inl e
                | Inr below \<Rightarrow> Inr (entry_row p pre (length ?cs) (fst ix) (snd ix) # below))
          else Inr [entry_row p pre (length ?cs) (fst ix) (snd ix)])"
    if "ix \<in> set (enumerate 0 ?cs)" for ix
  proof -
    from that have x: "snd ix \<in> set ?cs" by (rule enumerate_member_snd)
    have er: "entry_row p pre (length ?cs) (fst ix) (g (snd ix)) =
              entry_row p pre (length ?cs) (fst ix) (snd ix)"
      by (rule entry_row_map) (simp_all add: fst D)
    show ?thesis
    proof (cases "is_Dir (snd (snd ix))")
      case True
      from sub [OF x True]
      have "child_call lw cfg p pre depth root (length ?cs) (fst ix, g (snd ix)) =
            child_call lw cfg p pre depth root (length ?cs) ix"
        by (simp add: child_call_def fst)
      with True show ?thesis by (simp add: D er split: sum.splits)
    next
      case False
      then show ?thesis by (simp add: D er)
    qed
  qed
  show ?thesis
    unfolding build_tree_Dir_unfold cm st length_map enumerate_map for_each_map fst_conv snd_conv
    by (auto split: option.splits intro!: for_each_cong body)
qed

lemma is_dir_prune [simp]: "is_dir (prune nm nd) = is_dir nd"
  by (cases nd) auto

lemma is_dir_as_empty [simp]: "is_dir (as_empty sel p nd) = is_dir nd"
  by (cases nd) auto



lemma build_tree_prune:
  assumes "nm \<in> exclude_dirs cfg"
  shows "build_tree lw cfg p (prune nm nd) pre depth root = build_tree lw cfg p nd pre depth root"
proof (induction nd arbitrary: p pre depth rule: node_induct)
  case File
  show ?case by simp
next
  case (NoStat f)
  show ?case by simp
next
  case (Dir l cs)
  let ?g = "\<lambda>item. (fst item, if fst item = nm \<and> is_Dir (snd item) then Dir None []
                              else prune nm (snd item))"
  have "build_tree lw cfg p (Dir l (map ?g cs)) pre depth root =
        build_tree lw cfg p (Dir l cs) pre depth root"
  proof (rule build_tree_map_children)
    fix x pre' assume x: "x \<in> set (contents lw cfg p root cs)" and d: "is_Dir (snd x)"
    then have mem: "(fst x, snd x) \<in> set cs"
      and keep: "\<not> should_exclude cfg (p @ [fst x]) (is_Dir (snd x)) (Some root)"
      by (simp_all add: in_contents)
    have "\<not> (fst x = nm \<and> is_Dir (snd x))"
      using keep kept_directory_name [of cfg p "fst x" "Some root"] assms by auto
    then show "build_tree lw cfg (p @ [fst x]) (snd (?g x)) pre' (Suc depth) root =
               build_tree lw cfg (p @ [fst x]) (snd x) pre' (Suc depth) root"
      using Dir.IH [OF mem] by auto
  next
    fix x :: "str \<times> node"
    show "is_dir (snd (?g x)) = is_dir (snd x)"
      by (cases "snd x") simp_all
  qed simp
  then show ?case by simp
qed


text \<open>
  Claim C4. When the excluded directory names contain a name (\<^verbatim>\<open>node_modules\<close> in the
  default configuration), then whatever the allow-list is, no emitted entry lies below a
  directory of that name, no directory of that name is emitted, and such directories are
  never looked into: emptying each of them leaves the output as it is.
\<close>

theorem excluded_directory_never_entered:
  assumes "nm \<in> exclude_dirs cfg" and "tree_rows lw cfg root pr (Some nd) = Inr rows"
  shows "(\<forall>r \<in> set rows. \<exists>rest. r_path r = root @ rest \<and> rest \<noteq> [] \<and>
             nm \<notin> set (butlast rest) \<and> (r_is_dir r \<longrightarrow> last rest \<noteq> nm)) \<and>
         tree_rows lw cfg root pr (Some (prune nm nd)) = Inr rows"
proof -
  from assms(2) have run: "build_tree lw cfg root nd [] 0 root = Inr rows"
    by (cases pr) (simp_all add: tree_rows_def)
  then have rows: "rows = rows_below lw cfg root nd [] 0 root"
    by (rule build_tree_rows_below)
  have "tree_rows lw cfg root pr (Some (prune nm nd)) = tree_rows lw cfg root pr (Some nd)"
    by (cases pr) (simp_all add: tree_rows_def build_tree_prune [OF assms(1)])
  with assms(2) rows rows_avoid [OF assms(1)] show ?thesis by auto
qed

text \<open>\<^verbatim>\<open>a/b/node_modules/pkg/index.ts\<close> beside \<^verbatim>\<open>a/b/x.ts\<close>, with the allow-list
  \<^verbatim>\<open>['.ts']\<close>.\<close>

theorem excluded_directory_never_entered_witness:
  "lit ''node_modules'' \<in> exclude_dirs cfg_ts \<and>
   tree_rows ascii_lower cfg_ts (plit [''proj'']) Reached (Some snap_modules) =
     Inr [\<lparr>r_path = plit [''proj'', ''a''], r_is_dir = True, r_line = corner @ lit ''a/''\<rparr>,
          \<lparr>r_path = plit [''proj'', ''a'', ''b''], r_is_dir = True,
            r_line = blank @ corner @ lit ''b/''\<rparr>,
          \<lparr>r_path = plit [''proj'', ''a'', ''b'', ''x.ts''], r_is_dir = False,
            r_line = blank @ blank @ corner @ lit ''x.ts''\<rparr>] \<and>
   tree_rows ascii_lower cfg_ts (plit [''proj'']) Reached (Some (prune (lit ''node_modules'') snap_modules)) =
     Inr [\<lparr>r_path = plit [''proj'', ''a''], r_is_dir = True, r_line = corner @ lit ''a/''\<rparr>,
          \<lparr>r_path = plit [''proj'', ''a'', ''b''], r_is_dir = True,
            r_line = blank @ corner @ lit ''b/''\<rparr>,
          \<lparr>r_path = plit [''proj'', ''a'', ''b'', ''x.ts''], r_is_dir = False,
            r_line = blank @ blank @ corner @ lit ''x.ts''\<rparr>] \<and>
   prune (lit ''node_modules'') snap_modules =
     Dir None [(lit ''a'', Dir None [(lit ''b'', Dir None
       [(lit ''x.ts'', File), (lit ''node_modules'', Dir None [])])])]"
proof -
  have h1: "lit ''node_modules'' \<in> exclude_dirs cfg_ts" by code_simp
  have h2: "tree_rows ascii_lower cfg_ts (plit [''proj'']) Reached (Some snap_modules) =
     Inr [\<lparr>r_path = plit [''proj'', ''a''], r_is_dir = True, r_line = corner @ lit ''a/''\<rparr>,
          \<lparr>r_path = plit [''proj'', ''a'', ''b''], r_is_dir = True,
            r_line = blank @ corner @ lit ''b/''\<rparr>,
          \<lparr>r_path = plit [''proj'', ''a'', ''b'', ''x.ts''], r_is_dir = False,
            r_line = blank @ blank @ corner @ lit ''x.ts''\<rparr>]"
    by code_simp
  have h3: "prune (lit ''node_modules'') snap_modules =
     Dir None [(lit ''a'', Dir None [(lit ''b'', Dir None
       [(lit ''x.ts'', File), (lit ''node_modules'', Dir None [])])])]"
    by code_simp
  from excluded_directory_never_entered [OF h1 h2] h1 h2 h3 show ?thesis by blast
qed



subsection \<open>The order of siblings\<close>

lemma rows_path:
  "r \<in> set (rows_below lw cfg p nd pre depth root) \<Longrightarrow> \<exists>rest. r_path r = p @ rest \<and> rest \<noteq> []"
proof (induction nd arbitrary: p pre depth rule: node_induct)
  case File
  then show ?case by simp
next
  case (NoStat f)
  then show ?case by simp
next
  case (Dir l cs)
  let ?len = "length (contents lw cfg p root cs)"
  from in_rows_below_Dir [OF Dir.prems] obtain ix where
    it: "ix \<in> set (enumerate 0 (contents lw cfg p root cs))" and
    r: "r \<in> set (block lw cfg p pre depth root ?len ix)"
    by blast
  from it have mem: "(fst (snd ix), snd (snd ix)) \<in> set cs"
    by (auto dest!: enumerate_member_snd simp: in_contents)
  from r [unfolded in_block] show ?case
  proof
    assume "r = entry_row p pre ?len (fst ix) (snd ix)"
    then show ?thesis by simp
  next
    assume "r \<in> set (rows_below lw cfg (p @ [fst (snd ix)]) (snd (snd ix))
                       (next_pre pre ?len (fst ix)) (Suc depth) root)"
    from Dir.IH [OF mem this] obtain rest where "r_path r = (p @ [fst (snd ix)]) @ rest" by blast
    then have "r_path r = p @ (fst (snd ix) # rest) \<and> fst (snd ix) # rest \<noteq> []" by simp
    then show ?thesis by blast
  qed
qed

lemma rows_path_deep:
  assumes "r \<in> set (rows_below lw cfg (p @ [n]) nd pre depth root)"
  shows "\<exists>rest. r_path r = p @ n # rest \<and> rest \<noteq> [] \<and> butlast (r_path r) = p @ n # butlast rest"
proof -
  from rows_path [OF assms] obtain rest where "r_path r = (p @ [n]) @ rest" "rest \<noteq> []" by blast
  then have "r_path r = p @ n # rest \<and> rest \<noteq> [] \<and> butlast (r_path r) = p @ n # butlast rest"
    by (simp add: butlast_append)
  then show ?thesis by blast
qed

lemma distinct_map_insort_key:
  "distinct (map f (insort_key k x xs)) = (f x \<notin> f ` set xs \<and> distinct (map f xs))"
  by (induction xs) (auto simp: set_insort_key)

lemma distinct_map_sort_key: "distinct (map f (sort_key k xs)) = distinct (map f xs)"
  by (induction xs) (simp_all add: distinct_map_insort_key)

lemma distinct_contents:
  "distinct (map fst cs) \<Longrightarrow> distinct (map fst (contents lw cfg p root cs))"
  by (simp add: contents_def distinct_map_filter distinct_map_sort_key)

lemma sorted_contents: "sorted (map (sort_k lw) (contents lw cfg p root cs))"
  by (simp add: contents_def sorted_filter)

lemma row_key_entry_row [simp]: "row_key lw (entry_row p pre len i item) = sort_k lw item"
  by (simp add: row_key_def sort_k_def name_def)

lemma names_unique_child:
  "names_unique (Dir l cs) \<Longrightarrow> item \<in> set cs \<Longrightarrow> names_unique (snd item)"
  by (simp add: list_all_iff)

lemma sorted_concat_single:
  assumes "distinct (map (\<lambda>ix. fst (snd ix)) ixs)"
    and "\<And>ix. ix \<in> set ixs \<Longrightarrow> sorted (map k (G ix))"
    and "\<And>ix. ix \<in> set ixs \<Longrightarrow> G ix \<noteq> [] \<Longrightarrow> fst (snd ix) = m"
  shows "sorted (map k (concat (map G ixs)))"
  using assms
proof (induction ixs)
  case Nil
  show ?case by simp
next
  case (Cons ix ixs)
  show ?case
  proof (cases "G ix = []")
    case True
    with Cons show ?thesis by simp
  next
    case False
    with Cons.prems(3) have "fst (snd ix) = m" by simp
    with Cons.prems(1) have "m \<notin> (\<lambda>ix. fst (snd ix)) ` set ixs" by simp
    then have "fst (snd iy) \<noteq> m" if "iy \<in> set ixs" for iy
      using that by blast
    with Cons.prems(3) have "G iy = []" if "iy \<in> set ixs" for iy
      using that by fastforce
    then have tl: "concat (map G ixs) = []" by simp
    from Cons.prems(2) [of ix] show ?thesis by (simp add: tl)
  qed
qed

lemma map_fst_snd_enumerate: "map (\<lambda>ix. f (snd ix)) (enumerate n xs) = map f xs"
proof -
  have "map (\<lambda>ix. f (snd ix)) (enumerate n xs) = map f (map snd (enumerate n xs))"
    by (simp only: map_map comp_def)
  then show ?thesis by (simp only: map_snd_enumerate)
qed

lemma own_rows_of_blocks:
  assumes "\<And>r ix. r \<in> set (rows_below lw cfg (p @ [fst (snd ix)]) (snd (snd ix))
                       (next_pre pre len (fst ix)) (Suc depth) root) \<Longrightarrow> \<not> P r"
    and "\<And>ix. P (entry_row p pre len (fst ix) (snd ix))"
  shows "filter P (concat (map (block lw cfg p pre depth root len) ixs)) =
         map (\<lambda>ix. entry_row p pre len (fst ix) (snd ix)) ixs"
proof (induction ixs)
  case Nil
  show ?case by simp
next
  case (Cons ix ixs)
  have "filter P (block lw cfg p pre depth root len ix) = [entry_row p pre len (fst ix) (snd ix)]"
    using assms(1) [of _ ix] assms(2) [of ix] by (auto simp: block_def filter_empty_conv)
  with Cons show ?case by simp
qed

lemma sub_rows_of_blocks:
  assumes "\<And>ix. \<not> P (entry_row p pre len (fst ix) (snd ix))"
  shows "filter P (concat (map (block lw cfg p pre depth root len) ixs)) =
         concat (map (\<lambda>ix. filter P (rows_below lw cfg (p @ [fst (snd ix)]) (snd (snd ix))
                       (next_pre pre len (fst ix)) (Suc depth) root)) ixs)"
  by (induction ixs) (simp_all add: block_def assms)

lemma sorted_sibling_group:
  "names_unique nd \<Longrightarrow>
   sorted (map (row_key lw) (sibling_group q (rows_below lw cfg p nd pre depth root)))"
proof (induction nd arbitrary: p pre depth rule: node_induct)
  case File
  show ?case by (simp add: sibling_group_def)
next
  case (NoStat f)
  show ?case by (simp add: sibling_group_def)
next
  case (Dir l cs)
  let ?cts = "contents lw cfg p root cs"
  let ?len = "length ?cts"
  let ?sub = "\<lambda>ix. rows_below lw cfg (p @ [fst (snd ix)]) (snd (snd ix))
                      (next_pre pre ?len (fst ix)) (Suc depth) root"
  from rows_below_Dir_cases [of lw cfg p l cs pre depth root]
  show ?case
  proof
    assume "rows_below lw cfg p (Dir l cs) pre depth root = []"
    then show ?thesis by (simp add: sibling_group_def)
  next
    assume "\<not> depth_reached cfg depth \<and> l = None \<and> stat_error cs = None \<and>
      rows_below lw cfg p (Dir l cs) pre depth root =
        concat (map (block lw cfg p pre depth root ?len) (enumerate 0 ?cts))"
    then have rows: "rows_below lw cfg p (Dir l cs) pre depth root =
        concat (map (block lw cfg p pre depth root ?len) (enumerate 0 ?cts))"
      by blast
    have deep: "butlast (r_path r) \<noteq> p" if "r \<in> set (?sub ix)" for r ix
      using rows_path_deep [OF that] by auto
    show ?thesis
    proof (cases "q = p")
      case True
      have "sibling_group q (rows_below lw cfg p (Dir l cs) pre depth root) =
        map (\<lambda>ix. entry_row p pre ?len (fst ix) (snd ix)) (enumerate 0 ?cts)"
        unfolding sibling_group_def rows True
        by (rule own_rows_of_blocks) (use deep in auto)
      then have "map (row_key lw) (sibling_group q (rows_below lw cfg p (Dir l cs) pre depth root)) =
        map (\<lambda>ix. sort_k lw (snd ix)) (enumerate 0 ?cts)"
        by (simp add: comp_def)
      also have "\<dots> = map (sort_k lw) ?cts"
        by (rule map_fst_snd_enumerate)
      finally show ?thesis by (simp add: sorted_contents)
    next
      case False
      let ?G = "\<lambda>ix. sibling_group q (?sub ix)"
      have eq: "sibling_group q (rows_below lw cfg p (Dir l cs) pre depth root) =
         concat (map ?G (enumerate 0 ?cts))"
        unfolding sibling_group_def rows
        by (rule sub_rows_of_blocks) (use False in auto)
      have "sorted (map (row_key lw) (concat (map ?G (enumerate 0 ?cts))))"
      proof (rule sorted_concat_single [where m = "q ! length p"])
        have "map (\<lambda>ix. fst (snd ix)) (enumerate 0 ?cts) = map fst ?cts"
          by (rule map_fst_snd_enumerate)
        with Dir.prems show "distinct (map (\<lambda>ix. fst (snd ix)) (enumerate 0 ?cts))"
          by (simp add: distinct_contents)
      next
        fix ix assume "ix \<in> set (enumerate 0 ?cts)"
        then have "snd ix \<in> set ?cts" by (rule enumerate_member_snd)
        then have mem: "(fst (snd ix), snd (snd ix)) \<in> set cs" by (simp add: in_contents)
        with Dir.prems have "names_unique (snd (snd ix))"
          using names_unique_child by fastforce
        from Dir.IH [OF mem this] show "sorted (map (row_key lw) (?G ix))" .
      next
        fix ix assume "?G ix \<noteq> []"
        then obtain r where r: "r \<in> set (?sub ix)" "butlast (r_path r) = q"
          by (auto simp: sibling_group_def filter_empty_conv)
        from rows_path_deep [OF r(1)] r(2)
        show "fst (snd ix) = q ! length p" by auto
      qed
      with eq show ?thesis by simp
    qed
  qed
qed

lemma sorted_by_key_groups:
  "sorted (map (row_key lw) g) \<Longrightarrow>
     g = filter r_is_dir g @ filter (\<lambda>r. \<not> r_is_dir r) g \<and>
     sorted (map (lower_name lw) (filter r_is_dir g)) \<and>
     sorted (map (lower_name lw) (filter (\<lambda>r. \<not> r_is_dir r) g))"
proof (induction g)
  case Nil
  show ?case by simp
next
  case (Cons x g)
  then have le: "\<And>y. y \<in> set g \<Longrightarrow> row_key lw x \<le> row_key lw y" and tl: "sorted (map (row_key lw) g)"
    by auto
  note IH = Cons.IH [OF tl]
  show ?case
  proof (cases "r_is_dir x")
    case True
    have "lower_name lw x \<le> lower_name lw y" if "y \<in> set g" "r_is_dir y" for y
      using le [OF that(1)] True that(2) by (simp add: row_key_def lower_name_def)
    with True IH show ?thesis by auto
  next
    case False
    have files: "\<not> r_is_dir y" if "y \<in> set g" for y
      using le [OF that] False by (auto simp: row_key_def)
    then have "filter r_is_dir g = []" and g: "filter (\<lambda>r. \<not> r_is_dir r) g = g"
      by (auto simp: filter_empty_conv filter_id_conv)
    moreover have "lower_name lw x \<le> lower_name lw y" if "y \<in> set g" for y
      using le [OF that] False files [OF that] by (simp add: row_key_def lower_name_def)
    ultimately show ?thesis using False IH by auto
  qed
qed

lemma sorted_own_level:
  "sorted (map (row_key lw) (own_level p (rows_below lw cfg p nd pre depth root)))"
proof (cases nd)
  case File
  then show ?thesis by (simp add: own_level_def)
next
  case (NoStat f)
  then show ?thesis by (simp add: own_level_def)
next
  case (Dir l cs)
  let ?cts = "contents lw cfg p root cs"
  let ?len = "length ?cts"
  let ?sub = "\<lambda>ix. rows_below lw cfg (p @ [fst (snd ix)]) (snd (snd ix))
                      (next_pre pre ?len (fst ix)) (Suc depth) root"
  from rows_below_Dir_cases [of lw cfg p l cs pre depth root]
  show ?thesis
  proof
    assume "rows_below lw cfg p (Dir l cs) pre depth root = []"
    then show ?thesis using Dir by (simp add: own_level_def)
  next
    assume "\<not> depth_reached cfg depth \<and> l = None \<and> stat_error cs = None \<and>
      rows_below lw cfg p (Dir l cs) pre depth root =
        concat (map (block lw cfg p pre depth root ?len) (enumerate 0 ?cts))"
    then have rows: "rows_below lw cfg p (Dir l cs) pre depth root =
        concat (map (block lw cfg p pre depth root ?len) (enumerate 0 ?cts))"
      by blast
    have deep: "length (r_path r) \<noteq> Suc (length p)" if "r \<in> set (?sub ix)" for r ix
      using rows_path_deep [OF that] by auto
    have "own_level p (rows_below lw cfg p (Dir l cs) pre depth root) =
      map (\<lambda>ix. entry_row p pre ?len (fst ix) (snd ix)) (enumerate 0 ?cts)"
      unfolding own_level_def rows
      by (rule own_rows_of_blocks) (use deep in auto)
    then have "map (row_key lw) (own_level p (rows_below lw cfg p (Dir l cs) pre depth root)) =
      map (\<lambda>ix. sort_k lw (snd ix)) (enumerate 0 ?cts)"
      by (simp add: comp_def)
    also have "\<dots> = map (sort_k lw) ?cts"
      by (rule map_fst_snd_enumerate)
    finally show ?thesis using Dir by (simp add: sorted_contents)
  qed
qed

text \<open>
  Claim C5. In the lines one call of \<^verbatim>\<open>_build_tree\<close> appends for the children of its
  directory, and, when every directory holds each name once, in the lines of the whole
  output that share a parent directory, all directories precede all files, and the
  directories and the files are each in ascending order of their lower-cased names. Names
  are sequences of code points, compared as Python compares strings, and the statement
  holds whatever function \<open>lw\<close> computes the lower case.
\<close>

theorem sibling_order:
  "(build_tree lw cfg p nd pre depth root = Inr rows \<longrightarrow>
      own_level p rows =
        filter r_is_dir (own_level p rows) @ filter (\<lambda>r. \<not> r_is_dir r) (own_level p rows) \<and>
      sorted (map (lower_name lw) (filter r_is_dir (own_level p rows))) \<and>
      sorted (map (lower_name lw) (filter (\<lambda>r. \<not> r_is_dir r) (own_level p rows)))) \<and>
   (names_unique nd \<and> tree_rows lw cfg root pr (Some nd) = Inr rows \<longrightarrow>
      sibling_group q rows =
        filter r_is_dir (sibling_group q rows) @
        filter (\<lambda>r. \<not> r_is_dir r) (sibling_group q rows) \<and>
      sorted (map (lower_name lw) (filter r_is_dir (sibling_group q rows))) \<and>
      sorted (map (lower_name lw) (filter (\<lambda>r. \<not> r_is_dir r) (sibling_group q rows))))"
proof (intro conjI impI)
  assume "build_tree lw cfg p nd pre depth root = Inr rows"
  then have "rows = rows_below lw cfg p nd pre depth root" by (simp add: rows_below_def)
  with sorted_own_level [of lw p cfg nd pre depth root]
  have "sorted (map (row_key lw) (own_level p rows))" by simp
  from sorted_by_key_groups [OF this]
  show "own_level p rows =
        filter r_is_dir (own_level p rows) @ filter (\<lambda>r. \<not> r_is_dir r) (own_level p rows)"
    and "sorted (map (lower_name lw) (filter r_is_dir (own_level p rows)))"
    and "sorted (map (lower_name lw) (filter (\<lambda>r. \<not> r_is_dir r) (own_level p rows)))"
    by blast+
next
  assume a: "names_unique nd \<and> tree_rows lw cfg root pr (Some nd) = Inr rows"
  then have "build_tree lw cfg root nd [] 0 root = Inr rows"
    by (cases pr) (simp_all add: tree_rows_def)
  then have "rows = rows_below lw cfg root nd [] 0 root"
    by (rule build_tree_rows_below)
  with sorted_sibling_group [of nd lw q cfg root "[]" 0 root] a
  have "sorted (map (row_key lw) (sibling_group q rows))" by simp
  from sorted_by_key_groups [OF this]
  show "sibling_group q rows =
        filter r_is_dir (sibling_group q rows) @
        filter (\<lambda>r. \<not> r_is_dir r) (sibling_group q rows)"
    and "sorted (map (lower_name lw) (filter r_is_dir (sibling_group q rows)))"
    and "sorted (map (lower_name lw) (filter (\<lambda>r. \<not> r_is_dir r) (sibling_group q rows)))"
    by blast+
qed

text \<open>A root holding \<^verbatim>\<open>b.ts\<close>, \<^verbatim>\<open>Zeta/\<close> with \<^verbatim>\<open>y.ts\<close> and \<^verbatim>\<open>X.ts\<close>, \<^verbatim>\<open>A.ts\<close> and \<^verbatim>\<open>alpha/\<close>, listed in
  that order. And a root holding the files U+00C9 and U+00E8: in lower case the first is
  U+00E9, so it comes second.\<close>

theorem sibling_order_witness:
  "names_unique snap_mixed \<and>
   tree_rows ascii_lower cfg_default (plit [''proj'']) Reached (Some snap_mixed) = Inr mixed_rows \<and>
   build_tree ascii_lower cfg_default (plit [''proj'']) snap_mixed [] 0 (plit [''proj'']) = Inr mixed_rows \<and>
   map r_path (own_level (plit [''proj'']) mixed_rows) =
     [plit [''proj'', ''alpha''], plit [''proj'', ''Zeta''], plit [''proj'', ''A.ts''],
      plit [''proj'', ''b.ts'']] \<and>
   map r_path (sibling_group (plit [''proj'', ''Zeta'']) mixed_rows) =
     [plit [''proj'', ''Zeta'', ''X.ts''], plit [''proj'', ''Zeta'', ''y.ts'']] \<and>
   own_level (plit [''proj'']) mixed_rows =
     filter r_is_dir (own_level (plit [''proj'']) mixed_rows) @
     filter (\<lambda>r. \<not> r_is_dir r) (own_level (plit [''proj'']) mixed_rows) \<and>
   sorted (map (lower_name ascii_lower) (filter r_is_dir (own_level (plit [''proj'']) mixed_rows))) \<and>
   sorted (map (lower_name ascii_lower)
     (filter (\<lambda>r. \<not> r_is_dir r) (own_level (plit [''proj'']) mixed_rows))) \<and>
   sibling_group (plit [''proj'', ''Zeta'']) mixed_rows =
     filter r_is_dir (sibling_group (plit [''proj'', ''Zeta'']) mixed_rows) @
     filter (\<lambda>r. \<not> r_is_dir r) (sibling_group (plit [''proj'', ''Zeta'']) mixed_rows) \<and>
   sorted (map (lower_name ascii_lower)
     (filter r_is_dir (sibling_group (plit [''proj'', ''Zeta'']) mixed_rows))) \<and>
   sorted (map (lower_name ascii_lower)
     (filter (\<lambda>r. \<not> r_is_dir r) (sibling_group (plit [''proj'', ''Zeta'']) mixed_rows))) \<and>
   build_tree latin1_lower cfg_default (plit [''proj'']) snap_accents [] 0 (plit [''proj'']) =
     Inr [\<lparr>r_path = [lit ''proj'', [232]], r_is_dir = False, r_line = branch @ [232]\<rparr>,
          \<lparr>r_path = [lit ''proj'', [201]], r_is_dir = False, r_line = corner @ [201]\<rparr>] \<and>
   sorted (map (lower_name latin1_lower) (filter (\<lambda>r. \<not> r_is_dir r)
     (own_level (plit [''proj''])
        [\<lparr>r_path = [lit ''proj'', [232]], r_is_dir = False, r_line = branch @ [232]\<rparr>,
          \<lparr>r_path = [lit ''proj'', [201]], r_is_dir = False, r_line = corner @ [201]\<rparr>])))"
proof -
  have h1: "names_unique snap_mixed" by code_simp
  have h2: "tree_rows ascii_lower cfg_default (plit [''proj'']) Reached (Some snap_mixed) = Inr mixed_rows"
    by code_simp
  then have h2': "build_tree ascii_lower cfg_default (plit [''proj'']) snap_mixed [] 0 (plit [''proj'']) =
      Inr mixed_rows"
    by (simp add: tree_rows_def)
  have h3: "map r_path (own_level (plit [''proj'']) mixed_rows) =
     [plit [''proj'', ''alpha''], plit [''proj'', ''Zeta''], plit [''proj'', ''A.ts''],
      plit [''proj'', ''b.ts'']]"
    by code_simp
  have h4: "map r_path (sibling_group (plit [''proj'', ''Zeta'']) mixed_rows) =
     [plit [''proj'', ''Zeta'', ''X.ts''], plit [''proj'', ''Zeta'', ''y.ts'']]"
    by code_simp
  have h5: "build_tree latin1_lower cfg_default (plit [''proj'']) snap_accents [] 0 (plit [''proj'']) =
     Inr [\<lparr>r_path = [lit ''proj'', [232]], r_is_dir = False, r_line = branch @ [232]\<rparr>,
          \<lparr>r_path = [lit ''proj'', [201]], r_is_dir = False, r_line = corner @ [201]\<rparr>]"
    by code_simp
  from sibling_order [of latin1_lower cfg_default "plit [''proj'']" snap_accents "[]" 0 "plit [''proj'']"
      "[\<lparr>r_path = [lit ''proj'', [232]], r_is_dir = False, r_line = branch @ [232]\<rparr>,
          \<lparr>r_path = [lit ''proj'', [201]], r_is_dir = False, r_line = corner @ [201]\<rparr>]"] h5
  have c5: "sorted (map (lower_name latin1_lower) (filter (\<lambda>r. \<not> r_is_dir r)
     (own_level (plit [''proj''])
        [\<lparr>r_path = [lit ''proj'', [232]], r_is_dir = False, r_line = branch @ [232]\<rparr>,
          \<lparr>r_path = [lit ''proj'', [201]], r_is_dir = False, r_line = corner @ [201]\<rparr>])))"
    by blast
  from sibling_order [of ascii_lower cfg_default "plit [''proj'']" snap_mixed "[]" 0 "plit [''proj'']"
      mixed_rows Reached "plit [''proj'', ''Zeta'']"] h1 h2 h2' h3 h4 h5 c5
  show ?thesis by blast
qed

subsection \<open>Determinism and pre-order\<close>










lemma is_dir_relist [simp]: "is_dir (relist f p nd) = is_dir nd"
  by (cases nd) auto



text \<open>Where two entries of a directory have the same sort key, the sort keeps them in the
  order of the listing; and where the \<^verbatim>\<open>stat\<close> of two entries fails in different ways, the
  first in the listing decides.\<close>

lemma listing_order_shows_on_equal_keys:
  "tree_lines ascii_lower cfg_default (plit [''proj'']) Reached (Some snap_collide) =
     Inr [lit ''proj/'', branch @ lit ''a.ts'', corner @ lit ''A.ts''] \<and>
   tree_lines ascii_lower cfg_default (plit [''proj'']) Reached
       (Some (relist (\<lambda>q. rev) (plit [''proj'']) snap_collide)) =
     Inr [lit ''proj/'', branch @ lit ''A.ts'', corner @ lit ''a.ts''] \<and>
   tree_lines ascii_lower cfg_default (plit [''proj'']) Reached (Some snap_two_failures) =
     Inr [lit ''proj/''] \<and>
   tree_lines ascii_lower cfg_default (plit [''proj'']) Reached
       (Some (relist (\<lambda>q. rev) (plit [''proj'']) snap_two_failures)) = Inl OSError"
  by code_simp



end
